theory Spec2Isabelle
  imports Main "HOL-Library.AList" "HOL-Library.FSet" "HOL-Library.Char_ord"
    "HOL-Library.List_Lexorder" "HOL-Library.Sublist"
begin

section \<open>Data model of the session-based scraper\<close>

text \<open>
  The development embeds \<^verbatim>\<open>DataScraping/poe2_api_scraper_full.py\<close>.  The script talks to
  three things outside itself: the trade API (two HTTP endpoints), the clock
  (\<^verbatim>\<open>time.sleep\<close>, \<^verbatim>\<open>datetime.now\<close>) and the directory \<^verbatim>\<open>poe2_session_dump\<close>.  They
  are made explicit: the API is a parameter of type \<open>server\<close>, everything else lives in a
  record \<open>world\<close> that every function takes and returns.  Calls of \<^verbatim>\<open>print\<close> have no
  effect on any of this and are left out.

  JSON documents are typed by the shape the script reads and writes.  An item record is a
  JSON object of which the script reads the key \<^verbatim>\<open>id\<close> only; the rest of it is carried
  along as an opaque string.
\<close>

datatype item = Item (item_id: "string option") (item_rest: string)

text \<open>
  A filter specification is the dictionary \<^verbatim>\<open>generate_all_categories\<close> builds:
  \<^verbatim>\<open>{"filters": {"type_filters": {"filters": {"rarity": {"option": r}}},
                "trade_filters": {"filters": {"price": {"option": "chaos", "min": a, "max": b}}},
                "misc_filters": {"filters": {"ilvl": {"min": lo, "max": hi}}}}}\<close>
  where \<^verbatim>\<open>min\<close>, \<^verbatim>\<open>max\<close> and the whole \<^verbatim>\<open>misc_filters\<close> entry may be absent.
\<close>

record filter_spec =
  rarity :: string
  price_min :: "nat option"
  price_max :: "nat option"
  ilvl :: "(nat \<times> nat) option"

text \<open>The body of a search response, \<^verbatim>\<open>{total: int, result: [id...], id: queryToken}\<close>,
  and of a fetch response, \<^verbatim>\<open>{result: [itemRecord...]}\<close>; every key may be missing.\<close>

datatype search_data =
  Search_data (sd_total: "int option") (sd_result: "string list option") (sd_id: "string option")

datatype fetch_data = Fetch_data (fd_result: "item list option")

text \<open>
  What \<^verbatim>\<open>requests.post\<close> / \<^verbatim>\<open>requests.get\<close> give back: a response with a status code and
  a body (\<open>None\<close> when \<^verbatim>\<open>response.json()\<close> would raise on it), or an exception.
\<close>

datatype 'a http = Response (status_code: int) (json_body: "'a option") | Transport_exception

text \<open>The server answers the \<open>n\<close>-th request of the run; the answer may depend on the
  request.\<close>

record server =
  search_api :: "nat \<Rightarrow> filter_spec \<Rightarrow> search_data http"
  fetch_api :: "nat \<Rightarrow> string list \<Rightarrow> string \<Rightarrow> fetch_data http"

text \<open>
  Metadata of the files the script writes.  \<open>md_subdivided\<close> is \<open>None\<close> when the key is
  absent (plain category files) and \<open>Some True\<close> in a combined file.
\<close>

datatype metadata =
    Category_metadata (md_category: string) (md_total_items: nat) (md_subdivided: "bool option")
      (md_scrape_date: nat)
  | Master_metadata (md_total_unique_items: nat) (md_scrape_date: nat)

text \<open>
  A JSON object on disk, restricted to the keys the script uses; a key that is absent is
  \<open>None\<close>.  A file holds such an object, or text that \<^verbatim>\<open>json.load\<close> rejects.
\<close>

record json_object =
  jo_completed_categories :: "string list option"
  jo_seen_item_ids :: "string list option"
  jo_last_updated :: "nat option"
  jo_metadata :: "metadata option"
  jo_items :: "item list option"

datatype file_content = Json json_object | Not_json string

definition empty_object :: json_object where
  "empty_object = \<lparr>jo_completed_categories = None, jo_seen_item_ids = None,
     jo_last_updated = None, jo_metadata = None, jo_items = None\<rparr>"

datatype event =
    Search_request filter_spec
  | Fetch_request "string list" string
  | Sleep nat
  | Write_file string file_content

text \<open>
  The world: the clock in seconds, the number of HTTP requests issued so far, the files of
  \<^verbatim>\<open>OUTPUT_DIR\<close> in the order \<^verbatim>\<open>os.listdir\<close> enumerates them (keyed by their name inside the
  directory), and the log of the effects performed so far.
\<close>

record world =
  now :: nat
  requests :: nat
  files :: "(string \<times> file_content) list"
  log :: "event list"

datatype py_error = JSONDecodeError | KeyError string

section \<open>Configuration\<close>

definition ITEMS_PER_FETCH :: nat where "ITEMS_PER_FETCH = 10"
definition DELAY_BETWEEN_FETCHES :: nat where "DELAY_BETWEEN_FETCHES = 5"
definition DELAY_BETWEEN_SEARCHES :: nat where "DELAY_BETWEEN_SEARCHES = 10"
definition PROGRESS_FILE :: string where "PROGRESS_FILE = ''progress.json''"

section \<open>Primitive effects\<close>

definition sleep :: "nat \<Rightarrow> world \<Rightarrow> world" where
  "sleep n w = w\<lparr>now := now w + n, log := log w @ [Sleep n]\<rparr>"

text \<open>\<^verbatim>\<open>open(name, 'w')\<close> followed by \<^verbatim>\<open>json.dump\<close>: the file is replaced where it is, or
  added to the directory.\<close>

definition write_file :: "string \<Rightarrow> file_content \<Rightarrow> world \<Rightarrow> world" where
  "write_file name c w =
     w\<lparr>files := AList.update name c (files w), log := log w @ [Write_file name c]\<rparr>"

definition requests_post :: "server \<Rightarrow> filter_spec \<Rightarrow> world \<Rightarrow> search_data http \<times> world" where
  "requests_post srv query w =
     (search_api srv (requests w) query,
      w\<lparr>requests := Suc (requests w), log := log w @ [Search_request query]\<rparr>)"

definition requests_get :: "server \<Rightarrow> string list \<Rightarrow> string \<Rightarrow> world \<Rightarrow> fetch_data http \<times> world" where
  "requests_get srv ids query_id w =
     (fetch_api srv (requests w) ids query_id,
      w\<lparr>requests := Suc (requests w), log := log w @ [Fetch_request ids query_id]\<rparr>)"

section \<open>Progress store\<close>

text \<open>
  \<^verbatim>\<open>list(s)\<close> enumerates a Python set in an order the language leaves open; the model
  enumerates it in increasing order.
\<close>

definition save_progress :: "string fset \<Rightarrow> string fset \<Rightarrow> world \<Rightarrow> world" where
  "save_progress completed_categories seen_item_ids w =
     write_file PROGRESS_FILE
       (Json (empty_object\<lparr>
          jo_completed_categories := Some (sorted_list_of_fset completed_categories),
          jo_seen_item_ids := Some (sorted_list_of_fset seen_item_ids),
          jo_last_updated := Some (now w)\<rparr>)) w"

definition load_progress :: "world \<Rightarrow> py_error + (string fset \<times> string fset)" where
  "load_progress w =
     (case map_of (files w) PROGRESS_FILE of
        None \<Rightarrow> Inr ({||}, {||})
      | Some (Not_json _) \<Rightarrow> Inl JSONDecodeError
      | Some (Json progress) \<Rightarrow>
          (case jo_completed_categories progress of
             None \<Rightarrow> Inl (KeyError ''completed_categories'')
           | Some cs \<Rightarrow>
               (case jo_seen_item_ids progress of
                  None \<Rightarrow> Inl (KeyError ''seen_item_ids'')
                | Some ss \<Rightarrow> Inr (fset_of_list cs, fset_of_list ss))))"

section \<open>Search client and fetch client\<close>

text \<open>
  Both clients call themselves again after a 429, without a bound, so a server that keeps
  answering 429 keeps them running forever: they are partial, and \<open>None\<close> stands for a
  call that never returns.  The query sent by \<^verbatim>\<open>search_items_with_filters\<close> is the fixed
  frame \<^verbatim>\<open>{"query": {"status": {"option": "any"}}, "sort": {"price": "asc"}}\<close> updated with
  the filters, so the filters identify the request.
\<close>

partial_function (option) search_items_with_filters ::
  "server \<Rightarrow> filter_spec \<Rightarrow> world \<Rightarrow> ((string list \<times> string \<times> int) \<times> world) option" where
  "search_items_with_filters srv filters_dict w =
     (case requests_post srv filters_dict w of (response, w1) \<Rightarrow>
        (case response of
           Transport_exception \<Rightarrow> Some (([], '''', 0), w1)
         | Response status body \<Rightarrow>
             if status = 200 then
               (case body of
                  None \<Rightarrow> Some (([], '''', 0), w1)
                | Some data \<Rightarrow>
                    Some ((case sd_result data of None \<Rightarrow> [] | Some r \<Rightarrow> r,
                           case sd_id data of None \<Rightarrow> '''' | Some q \<Rightarrow> q,
                           case sd_total data of None \<Rightarrow> 0 | Some t \<Rightarrow> t), w1))
             else if status = 429 then search_items_with_filters srv filters_dict (sleep 60 w1)
             else Some (([], '''', 0), w1)))"

partial_function (option) fetch_items_batch ::
  "server \<Rightarrow> string list \<Rightarrow> string \<Rightarrow> world \<Rightarrow> (fetch_data option \<times> world) option" where
  "fetch_items_batch srv item_ids query_id w =
     (if item_ids = [] then Some (None, w)
      else
        (case requests_get srv (take ITEMS_PER_FETCH item_ids) query_id w of (response, w1) \<Rightarrow>
           (case response of
              Transport_exception \<Rightarrow> Some (None, w1)
            | Response status body \<Rightarrow>
                if status = 200 then Some (body, w1)
                else if status = 429 then fetch_items_batch srv item_ids query_id (sleep 60 w1)
                else Some (None, w1))))"

section \<open>Category pipeline\<close>

text \<open>\<^verbatim>\<open>str(n)\<close> for a natural number, as the f-strings format it.\<close>

fun str_nat :: "nat \<Rightarrow> string" where
  "str_nat n =
     (if n < 10 then [char_of (48 + n)]
      else str_nat (n div 10) @ [char_of (48 + n mod 10)])"

declare str_nat.simps [simp del]

text \<open>\<^verbatim>\<open>s.replace(old, new)\<close> for a single character \<open>old\<close>.\<close>

definition replace :: "char \<Rightarrow> string \<Rightarrow> string \<Rightarrow> string" where
  "replace old new s = concat (map (\<lambda>c. if c = old then new else [c]) s)"

definition safe_name :: "string \<Rightarrow> string" where
  "safe_name category_name =
     replace CHR '':'' '''' (replace CHR ''/'' ''-'' (replace CHR ''|'' ''-''
       (replace CHR '' '' ''_'' category_name)))"

text \<open>
  The loop \<^verbatim>\<open>for batch_num in range(num_batches)\<close> of \<^verbatim>\<open>scrape_category\<close>; the fifth
  argument is the part of the range still to run.
\<close>

fun fetch_loop ::
  "server \<Rightarrow> string list \<Rightarrow> string \<Rightarrow> nat \<Rightarrow> nat list \<Rightarrow> item list \<Rightarrow> world \<Rightarrow>
     (item list \<times> world) option" where
  "fetch_loop srv item_ids query_id num_batches [] all_items w = Some (all_items, w)"
| "fetch_loop srv item_ids query_id num_batches (batch_num # rest) all_items w =
     (let start_idx = batch_num * ITEMS_PER_FETCH;
          end_idx = min (start_idx + ITEMS_PER_FETCH) (length item_ids);
          batch_ids = take (end_idx - start_idx) (drop start_idx item_ids)
      in case fetch_items_batch srv batch_ids query_id w of
           None \<Rightarrow> None
         | Some (batch_data, w1) \<Rightarrow>
             (let all_items1 =
                    (case batch_data of
                       None \<Rightarrow> all_items
                     | Some d \<Rightarrow>
                         (case fd_result d of
                            None \<Rightarrow> all_items
                          | Some items \<Rightarrow> if items = [] then all_items else all_items @ items));
                  w2 = (if batch_num + 1 < num_batches then sleep DELAY_BETWEEN_FETCHES w1 else w1)
              in fetch_loop srv item_ids query_id num_batches rest all_items1 w2))"

definition level_ranges :: "(nat \<times> nat) list" where
  "level_ranges =
     [(1, 20), (21, 40), (41, 50), (51, 60), (61, 65),
      (66, 70), (71, 75), (76, 80), (81, 85), (86, 100)]"

text \<open>
  \<^verbatim>\<open>scrape_category\<close> and \<^verbatim>\<open>scrape_with_subdivision\<close> call each other; \<open>subdivision_loop\<close>
  is the loop over the level ranges, with the combined list as accumulator.  The deep copy
  of the filters followed by the assignment of \<^verbatim>\<open>["filters"]["misc_filters"]["filters"]["ilvl"]\<close>
  is a record update.
\<close>

function scrape_category ::
    "server \<Rightarrow> string \<Rightarrow> filter_spec \<Rightarrow> bool \<Rightarrow> world \<Rightarrow> (item list \<times> world) option"
  and scrape_with_subdivision ::
    "server \<Rightarrow> string \<Rightarrow> filter_spec \<Rightarrow> int \<Rightarrow> world \<Rightarrow> (item list \<times> world) option"
  and subdivision_loop ::
    "server \<Rightarrow> string \<Rightarrow> filter_spec \<Rightarrow> (nat \<times> nat) list \<Rightarrow> item list \<Rightarrow> world \<Rightarrow>
       (item list \<times> world) option"
where
  "scrape_category srv category_name filters subdivide_if_full w =
     (case search_items_with_filters srv filters w of
        None \<Rightarrow> None
      | Some ((item_ids, query_id, total_count), w1) \<Rightarrow>
          if item_ids = [] then Some ([], w1)
          else if length item_ids \<ge> 100 \<and> total_count > 100 \<and> subdivide_if_full
          then scrape_with_subdivision srv category_name filters total_count w1
          else
            (let num_batches = (length item_ids + ITEMS_PER_FETCH - 1) div ITEMS_PER_FETCH
             in case fetch_loop srv item_ids query_id num_batches [0..<num_batches] [] w1 of
                  None \<Rightarrow> None
                | Some (all_items, w2) \<Rightarrow>
                    if all_items \<noteq> [] then
                      Some (all_items,
                        write_file (safe_name category_name @ ''.json'')
                          (Json (empty_object\<lparr>
                             jo_metadata := Some (Category_metadata category_name
                               (length all_items) None (now w2)),
                             jo_items := Some all_items\<rparr>)) w2)
                    else Some (all_items, w2)))"
| "scrape_with_subdivision srv category_name filters total_items w =
     (case subdivision_loop srv category_name filters level_ranges [] w of
        None \<Rightarrow> None
      | Some (all_items_combined, w1) \<Rightarrow>
          if all_items_combined \<noteq> [] then
            Some (all_items_combined,
              write_file (safe_name category_name @ ''_COMBINED.json'')
                (Json (empty_object\<lparr>
                   jo_metadata := Some (Category_metadata category_name
                     (length all_items_combined) (Some True) (now w1)),
                   jo_items := Some all_items_combined\<rparr>)) w1)
          else Some (all_items_combined, w1))"
| "subdivision_loop srv category_name filters [] all_items_combined w =
     Some (all_items_combined, w)"
| "subdivision_loop srv category_name filters ((min_ilvl, max_ilvl) # rest) all_items_combined w =
     (let sub_filters = filters\<lparr>ilvl := Some (min_ilvl, max_ilvl)\<rparr>;
          sub_category = category_name @ ''_ilvl'' @ str_nat min_ilvl @ ''-'' @ str_nat max_ilvl
      in case scrape_category srv sub_category sub_filters False w of
           None \<Rightarrow> None
         | Some (items, w1) \<Rightarrow>
             subdivision_loop srv category_name filters rest (all_items_combined @ items)
               (sleep 2 w1))"
  by pat_completeness auto
termination
  by (relation "measure (\<lambda>x. case x of
        Inl (_, _, _, flag, _) \<Rightarrow> (if flag then 20 else 0)
      | Inr (Inl _) \<Rightarrow> 19
      | Inr (Inr (_, _, _, rs, _, _)) \<Rightarrow> 1 + length rs)") (auto simp: level_ranges_def)

declare scrape_category.simps [simp del]
declare scrape_with_subdivision.simps [simp del]

section \<open>Session loop\<close>

text \<open>
  The loop \<^verbatim>\<open>for item_data in items\<close> that keeps the records whose \<^verbatim>\<open>id\<close> is truthy and new.
  \<^verbatim>\<open>scrape_session\<close> and \<^verbatim>\<open>create_master_file\<close> hold the same loop; the counter
  \<^verbatim>\<open>new_items\<close> of the former is only printed.
\<close>

fun track_unique :: "item list \<Rightarrow> item list \<Rightarrow> string fset \<Rightarrow> item list \<times> string fset" where
  "track_unique [] all_items seen_ids = (all_items, seen_ids)"
| "track_unique (item_data # rest) all_items seen_ids =
     (case item_id item_data of
        None \<Rightarrow> track_unique rest all_items seen_ids
      | Some i \<Rightarrow>
          if i \<noteq> [] \<and> i |\<notin>| seen_ids
          then track_unique rest (all_items @ [item_data]) (finsert i seen_ids)
          else track_unique rest all_items seen_ids)"

text \<open>
  The loop \<^verbatim>\<open>for cat_num, (category_name, filters) in enumerate(categories, 1)\<close>;
  \<open>n\<close> is \<^verbatim>\<open>len(categories)\<close>.
\<close>

fun session_loop ::
  "server \<Rightarrow> nat \<Rightarrow> nat \<Rightarrow> (string \<times> filter_spec) list \<Rightarrow> string fset \<Rightarrow> string fset \<Rightarrow>
     item list \<Rightarrow> world \<Rightarrow> (string fset \<times> string fset \<times> item list \<times> world) option" where
  "session_loop srv n cat_num [] completed_categories seen_item_ids all_items_collected w =
     Some (completed_categories, seen_item_ids, all_items_collected, w)"
| "session_loop srv n cat_num ((category_name, filters) # rest) completed_categories
       seen_item_ids all_items_collected w =
     (if category_name |\<in>| completed_categories
      then session_loop srv n (Suc cat_num) rest completed_categories seen_item_ids
             all_items_collected w
      else
        (case scrape_category srv category_name filters True w of
           None \<Rightarrow> None
         | Some (items, w1) \<Rightarrow>
             (case track_unique items all_items_collected seen_item_ids of
                (all_items_collected1, seen_item_ids1) \<Rightarrow>
                  (let completed_categories1 = finsert category_name completed_categories;
                       w2 = save_progress completed_categories1 seen_item_ids1 w1;
                       w3 = (if cat_num < n then sleep DELAY_BETWEEN_SEARCHES w2 else w2)
                   in session_loop srv n (Suc cat_num) rest completed_categories1
                        seen_item_ids1 all_items_collected1 w3))))"

text \<open>
  A session: load the progress, run the loop.  An exception of \<^verbatim>\<open>load_progress\<close> ends the
  session (\<open>Inl\<close>).  The directory \<^verbatim>\<open>OUTPUT_DIR\<close> always exists in the model, so
  \<^verbatim>\<open>create_output_directory\<close> does nothing.
\<close>

definition scrape_session ::
  "server \<Rightarrow> nat \<Rightarrow> (string \<times> filter_spec) list \<Rightarrow> world \<Rightarrow> (py_error + world) option" where
  "scrape_session srv session_number categories w =
     (case load_progress w of
        Inl e \<Rightarrow> Some (Inl e)
      | Inr (completed_categories, seen_item_ids) \<Rightarrow>
          (case session_loop srv (length categories) 1 categories completed_categories
                  seen_item_ids [] w of
             None \<Rightarrow> None
           | Some (_, _, _, w') \<Rightarrow> Some (Inr w')))"

section \<open>Aggregator\<close>



section \<open>Notions used to state the properties\<close>

text \<open>A world with an empty directory, at time zero, before any request.\<close>

definition world0 :: world where
  "world0 = \<lparr>now = 0, requests = 0, files = [], log = []\<rparr>"

text \<open>
  What the first answer that is not a 429 yields: the parsed body of a 200 (the defaults of
  \<^verbatim>\<open>data.get\<close> for missing keys), and the empty result for every other status, for a
  body that does not parse and for a transport exception.
\<close>

definition search_result :: "search_data http \<Rightarrow> string list \<times> string \<times> int" where
  "search_result r =
     (case r of
        Response status (Some d) \<Rightarrow>
          if status = 200
          then (case sd_result d of None \<Rightarrow> [] | Some r \<Rightarrow> r,
                case sd_id d of None \<Rightarrow> '''' | Some q \<Rightarrow> q,
                case sd_total d of None \<Rightarrow> 0 | Some t \<Rightarrow> t)
          else ([], '''', 0)
      | _ \<Rightarrow> ([], '''', 0))"

definition fetch_result :: "fetch_data http \<Rightarrow> fetch_data option" where
  "fetch_result r =
     (case r of
        Response status body \<Rightarrow> if status = 200 then body else None
      | Transport_exception \<Rightarrow> None)"

text \<open>The answer is an HTTP 429.\<close>

definition rate_limited :: "'a http \<Rightarrow> bool" where
  "rate_limited r = (case r of Response status _ \<Rightarrow> status = 429 | Transport_exception \<Rightarrow> False)"

text \<open>
  The world after a request was answered by \<open>k\<close> 429s and then by something else: the
  request went out \<open>k + 1\<close> times, each of the first \<open>k\<close> followed by a sleep of 60
  seconds.
\<close>

definition retried :: "nat \<Rightarrow> event \<Rightarrow> world \<Rightarrow> world" where
  "retried k request w =
     w\<lparr>now := now w + 60 * k, requests := requests w + k + 1,
       log := log w @ concat (replicate k [request, Sleep 60]) @ [request]\<rparr>"

text \<open>Concrete inputs.\<close>

definition filters0 :: filter_spec where
  "filters0 = \<lparr>rarity = ''rare'', price_min = Some 0, price_max = Some 1, ilvl = None\<rparr>"

definition server_429 :: server where
  "server_429 =
     \<lparr>search_api = (\<lambda>n f. if n < 2 then Response 429 None
                          else Response 200 (Some (Search_data (Some 1) (Some [''a'']) (Some ''q'')))),
      fetch_api = (\<lambda>n ids q. if n < 1 then Response 429 None else Response 500 None)\<rparr>"



text \<open>\<^verbatim>\<open>data.get('items', [])\<close> of a file that parses.\<close>

definition items_of :: "file_content \<Rightarrow> item list" where
  "items_of c =
     (case c of
        Json d \<Rightarrow> (case jo_items d of None \<Rightarrow> [] | Some xs \<Rightarrow> xs)
      | Not_json _ \<Rightarrow> [])"




text \<open>A directory that holds the progress file of the specification's example, and a server
  whose searches find nothing.\<close>

definition world_progress :: world where
  "world_progress = world0\<lparr>files := [(''progress.json'',
     Json (empty_object\<lparr>jo_completed_categories := Some [''Rare_0-1c''],
                         jo_seen_item_ids := Some [''id1'', ''id2'']\<rparr>))]\<rparr>"

definition server_empty :: server where
  "server_empty =
     \<lparr>search_api = (\<lambda>n f. Response 200 (Some (Search_data (Some 0) (Some []) (Some ''q0'')))),
      fetch_api = (\<lambda>n ids q. Response 200 (Some (Fetch_data (Some []))))\<rparr>"

text \<open>
  The fetch phase in the words of the specification.  \<open>batches_of\<close> cuts a list of IDs into
  consecutive batches of \<open>ITEMS_PER_FETCH\<close>; \<open>fetch_batches\<close> calls the fetch client once per
  batch, appends what each batch yields (\<open>batch_items\<close>: nothing for a failed batch) and
  sleeps the inter-batch delay after every batch but the last.
\<close>

function batches_of :: "string list \<Rightarrow> string list list" where
  "batches_of ids =
     (if ids = [] then []
      else take ITEMS_PER_FETCH ids # batches_of (drop ITEMS_PER_FETCH ids))"
  by pat_completeness auto
termination
  by (relation "measure length") (auto simp: ITEMS_PER_FETCH_def)

declare batches_of.simps [simp del]

definition batch_items :: "fetch_data option \<Rightarrow> item list" where
  "batch_items batch_data =
     (case batch_data of
        None \<Rightarrow> []
      | Some d \<Rightarrow> (case fd_result d of None \<Rightarrow> [] | Some items \<Rightarrow> items))"

fun fetch_batches ::
  "server \<Rightarrow> string \<Rightarrow> string list list \<Rightarrow> item list \<Rightarrow> world \<Rightarrow> (item list \<times> world) option" where
  "fetch_batches srv query_id [] all_items w = Some (all_items, w)"
| "fetch_batches srv query_id (batch # later) all_items w =
     (case fetch_items_batch srv batch query_id w of
        None \<Rightarrow> None
      | Some (batch_data, w1) \<Rightarrow>
          fetch_batches srv query_id later (all_items @ batch_items batch_data)
            (if later = [] then w1 else sleep DELAY_BETWEEN_FETCHES w1))"

text \<open>
  The effects of the fetch phase when no answer is a 429: one request per batch with the delay
  in between, and the records of the batches in order, the \<open>n\<close>-th request of the run being
  the first of the phase.
\<close>

fun fetch_events :: "string \<Rightarrow> string list list \<Rightarrow> event list" where
  "fetch_events query_id [] = []"
| "fetch_events query_id [batch] = [Fetch_request batch query_id]"
| "fetch_events query_id (batch # later) =
     Fetch_request batch query_id # Sleep DELAY_BETWEEN_FETCHES # fetch_events query_id later"

fun fetched_items :: "server \<Rightarrow> string \<Rightarrow> nat \<Rightarrow> string list list \<Rightarrow> item list" where
  "fetched_items srv query_id n [] = []"
| "fetched_items srv query_id n (batch # later) =
     batch_items (fetch_result (fetch_api srv n batch query_id)) @
     fetched_items srv query_id (Suc n) later"

text \<open>Twelve item IDs, and a server that answers every fetch with one record per ID.\<close>

definition ids12 :: "string list" where
  "ids12 = [''i01'', ''i02'', ''i03'', ''i04'', ''i05'', ''i06'', ''i07'', ''i08'', ''i09'', ''i10'',
            ''i11'', ''i12'']"

definition server_items :: server where
  "server_items =
     \<lparr>search_api = (\<lambda>n f. Response 200 (Some (Search_data (Some 12) (Some ids12) (Some ''q1'')))),
      fetch_api = (\<lambda>n ids q. Response 200
         (Some (Fetch_data (Some (map (\<lambda>i. Item (Some i) ''data'') ids)))))\<rparr>"

text \<open>The files written and the searches sent, read off a log.\<close>

fun written :: "event list \<Rightarrow> (string \<times> file_content) list" where
  "written [] = []"
| "written (Write_file name c # es) = (name, c) # written es"
| "written (e # es) = written es"

fun searched :: "event list \<Rightarrow> filter_spec list" where
  "searched [] = []"
| "searched (Search_request f # es) = f # searched es"
| "searched (e # es) = searched es"

text \<open>The document \<open>scrape_category\<close> and \<open>scrape_with_subdivision\<close> dump into a category
  file; the key \<^verbatim>\<open>subdivided\<close> is present in a combined file only.\<close>

definition category_file :: "string \<Rightarrow> bool option \<Rightarrow> item list \<Rightarrow> nat \<Rightarrow> file_content" where
  "category_file category_name subdivided items scrape_date =
     Json (empty_object\<lparr>
       jo_metadata := Some (Category_metadata category_name (length items) subdivided scrape_date),
       jo_items := Some items\<rparr>)"

text \<open>A server whose fetches fail, and a server that reports a total of 1 but returns two
  IDs.\<close>

definition server_fetch_fails :: server where
  "server_fetch_fails =
     \<lparr>search_api = (\<lambda>n f. Response 200
         (Some (Search_data (Some 2) (Some [''a'', ''b'']) (Some ''q'')))),
      fetch_api = (\<lambda>n ids q. Response 500 None)\<rparr>"

definition server_overfull :: server where
  "server_overfull =
     \<lparr>search_api = (\<lambda>n f. Response 200
         (Some (Search_data (Some 1) (Some [''a'', ''b'']) (Some ''q'')))),
      fetch_api = (\<lambda>n ids q. Response 200
         (Some (Fetch_data (Some (map (\<lambda>i. Item (Some i) ''data'') ids)))))\<rparr>"

text \<open>
  Subdivision in the words of the specification: the name of the sub-category of a level
  range, the file a sub-category with items leaves behind, and the results of the pipeline
  run once per range with subdivision disabled, a pause of two seconds after each.
\<close>

definition sub_category :: "string \<Rightarrow> nat \<times> nat \<Rightarrow> string" where
  "sub_category category_name r =
     category_name @ ''_ilvl'' @ str_nat (fst r) @ ''-'' @ str_nat (snd r)"

definition sub_file :: "string \<Rightarrow> (nat \<times> nat) \<times> item list \<times> nat \<Rightarrow> (string \<times> file_content) list" where
  "sub_file category_name x =
     (case x of (r, items, scrape_date) \<Rightarrow>
        if items = [] then []
        else [(safe_name (sub_category category_name r) @ ''.json'',
               category_file (sub_category category_name r) None items scrape_date)])"

fun sub_results ::
  "server \<Rightarrow> string \<Rightarrow> filter_spec \<Rightarrow> (nat \<times> nat) list \<Rightarrow> world \<Rightarrow>
     (item list list \<times> world) option" where
  "sub_results srv category_name filters [] w = Some ([], w)"
| "sub_results srv category_name filters (r # rest) w =
     (case scrape_category srv (sub_category category_name r) (filters\<lparr>ilvl := Some r\<rparr>) False w of
        None \<Rightarrow> None
      | Some (items, w1) \<Rightarrow>
          (case sub_results srv category_name filters rest (sleep 2 w1) of
             None \<Rightarrow> None
           | Some (subs, w2) \<Rightarrow> Some (items # subs, w2)))"







text \<open>The records of the twelve IDs, the set of their IDs, and the world in which the
  category of the twelve items has been scraped.\<close>

definition items12 :: "item list" where
  "items12 = map (\<lambda>i. Item (Some i) ''data'') ids12"

definition seen12 :: "string fset" where
  "seen12 = fset_of_list ids12"

definition world_items12 :: world where
  "world_items12 =
     \<lparr>now = 5, requests = 3,
      files = [(''Rare_0-1c.json'', category_file ''Rare_0-1c'' None items12 5)],
      log = [Search_request filters0,
             Fetch_request [''i01'', ''i02'', ''i03'', ''i04'', ''i05'', ''i06'', ''i07'',
                            ''i08'', ''i09'', ''i10''] ''q1'',
             Sleep 5,
             Fetch_request [''i11'', ''i12''] ''q1'',
             Write_file ''Rare_0-1c.json'' (category_file ''Rare_0-1c'' None items12 5)]\<rparr>"


section \<open>Progress store: properties\<close>

lemma map_of_write_file:
  "map_of (files (write_file name c w)) = (map_of (files w))(name \<mapsto> c)"
  by (simp add: write_file_def update_conv')

lemma load_progress_save_progress:
  "load_progress (save_progress C S w) = Inr (C, S)"
  by (simp add: load_progress_def save_progress_def map_of_write_file empty_object_def)

text \<open>
  Claim C10.  Loading the progress right after saving the pair of sets
  \<open>(completed_categories, seen_item_ids)\<close> returns exactly these two sets, although the file
  holds them as JSON lists.
\<close>

theorem progress_round_trip:
  "load_progress (save_progress completed_categories seen_item_ids w) =
     Inr (completed_categories, seen_item_ids)"
  by (simp add: load_progress_def save_progress_def map_of_write_file empty_object_def)

text \<open>
  Claim C1, as the code has it.  \<open>load_progress\<close> returns the empty state when the progress
  file does not exist, and the persisted sets when the file holds a JSON object with both
  keys.  It does not fail open on a corrupt file: text that is not JSON raises
  \<^verbatim>\<open>JSONDecodeError\<close>, and an object that lacks one of the two keys raises \<^verbatim>\<open>KeyError\<close>.
\<close>

theorem load_progress_cases:
  "(map_of (files w) PROGRESS_FILE = None \<longrightarrow> load_progress w = Inr ({||}, {||})) \<and>
   (map_of (files w) PROGRESS_FILE = Some (Json progress) \<and>
      jo_completed_categories progress = Some cs \<and> jo_seen_item_ids progress = Some ss \<longrightarrow>
      load_progress w = Inr (fset_of_list cs, fset_of_list ss)) \<and>
   (map_of (files w) PROGRESS_FILE = Some (Not_json text) \<longrightarrow>
      load_progress w = Inl JSONDecodeError) \<and>
   (map_of (files w) PROGRESS_FILE = Some (Json progress) \<and>
      jo_completed_categories progress = None \<longrightarrow>
      load_progress w = Inl (KeyError ''completed_categories'')) \<and>
   (map_of (files w) PROGRESS_FILE = Some (Json progress) \<and>
      jo_completed_categories progress = Some cs \<and> jo_seen_item_ids progress = None \<longrightarrow>
      load_progress w = Inl (KeyError ''seen_item_ids''))"
  by (simp add: load_progress_def)

theorem load_progress_cases_witness:
  "load_progress world0 = Inr ({||}, {||}) \<and>
   load_progress (world0\<lparr>files := [(''progress.json'',
       Json (empty_object\<lparr>jo_completed_categories := Some [''Rare_0-1c''],
                           jo_seen_item_ids := Some [''id1'', ''id2'']\<rparr>))]\<rparr>)
     = Inr ({|''Rare_0-1c''|}, {|''id1'', ''id2''|}) \<and>
   load_progress (world0\<lparr>files := [(''progress.json'', Not_json ''{completed_cat'')]\<rparr>)
     = Inl JSONDecodeError \<and>
   load_progress (world0\<lparr>files := [(''progress.json'', Json empty_object)]\<rparr>)
     = Inl (KeyError ''completed_categories'') \<and>
   load_progress (world0\<lparr>files := [(''progress.json'',
       Json (empty_object\<lparr>jo_completed_categories := Some []\<rparr>))]\<rparr>)
     = Inl (KeyError ''seen_item_ids'')"
  using load_progress_cases [of world0]
    load_progress_cases [of "world0\<lparr>files := [(''progress.json'',
       Json (empty_object\<lparr>jo_completed_categories := Some [''Rare_0-1c''],
                           jo_seen_item_ids := Some [''id1'', ''id2'']\<rparr>))]\<rparr>"
       "empty_object\<lparr>jo_completed_categories := Some [''Rare_0-1c''],
                           jo_seen_item_ids := Some [''id1'', ''id2'']\<rparr>"
       "[''Rare_0-1c'']" "[''id1'', ''id2'']"]
    load_progress_cases [of "world0\<lparr>files := [(''progress.json'', Not_json ''{completed_cat'')]\<rparr>"
       _ _ _ "''{completed_cat''"]
    load_progress_cases [of "world0\<lparr>files := [(''progress.json'', Json empty_object)]\<rparr>"
       empty_object]
    load_progress_cases [of "world0\<lparr>files := [(''progress.json'',
       Json (empty_object\<lparr>jo_completed_categories := Some []\<rparr>))]\<rparr>"
       "empty_object\<lparr>jo_completed_categories := Some []\<rparr>" "[]"]
  by (simp add: world0_def PROGRESS_FILE_def empty_object_def)

text \<open>The claim as stated fails on a progress file that is not JSON: the call raises instead
  of returning the empty state.\<close>

theorem load_progress_corrupt_counterexample:
  "load_progress (world0\<lparr>files := [(''progress.json'', Not_json ''{completed_cat'')]\<rparr>)
     = Inl JSONDecodeError \<and>
   load_progress (world0\<lparr>files := [(''progress.json'', Not_json ''{completed_cat'')]\<rparr>)
     \<noteq> Inr ({||}, {||})"
  by (simp add: load_progress_def world0_def PROGRESS_FILE_def)

section \<open>HTTP clients: properties\<close>

lemma search_retry:
  "(\<forall>i<k. rate_limited (search_api srv (requests w + i) f)) \<Longrightarrow>
   \<not> rate_limited (search_api srv (requests w + k) f) \<Longrightarrow>
   search_items_with_filters srv f w =
     Some (search_result (search_api srv (requests w + k) f), retried k (Search_request f) w)"
proof (induction k arbitrary: w)
  case 0
  then show ?case
    by (subst search_items_with_filters.simps)
      (auto simp: requests_post_def search_result_def rate_limited_def retried_def
          split: http.splits option.splits)
next
  case (Suc k)
  let ?w1 = "sleep 60 (w\<lparr>requests := Suc (requests w), log := log w @ [Search_request f]\<rparr>)"
  from Suc.prems(1) have first: "rate_limited (search_api srv (requests w) f)"
    by (metis add.right_neutral zero_less_Suc)
  have "\<forall>i<k. rate_limited (search_api srv (requests ?w1 + i) f)"
    using Suc.prems(1) by (auto simp: sleep_def)
  moreover have "\<not> rate_limited (search_api srv (requests ?w1 + k) f)"
    using Suc.prems(2) by (simp add: sleep_def)
  ultimately have IH: "search_items_with_filters srv f ?w1 =
     Some (search_result (search_api srv (requests ?w1 + k) f), retried k (Search_request f) ?w1)"
    by (rule Suc.IH)
  have unfold: "search_items_with_filters srv f w = search_items_with_filters srv f ?w1"
    using first
    by (subst search_items_with_filters.simps)
      (auto simp: requests_post_def rate_limited_def split: http.splits)
  show ?case
    unfolding unfold IH by (simp add: sleep_def retried_def)
qed

lemma fetch_retry:
  "ids \<noteq> [] \<Longrightarrow>
   (\<forall>i<k. rate_limited (fetch_api srv (requests w + i) (take ITEMS_PER_FETCH ids) q)) \<Longrightarrow>
   \<not> rate_limited (fetch_api srv (requests w + k) (take ITEMS_PER_FETCH ids) q) \<Longrightarrow>
   fetch_items_batch srv ids q w =
     Some (fetch_result (fetch_api srv (requests w + k) (take ITEMS_PER_FETCH ids) q),
           retried k (Fetch_request (take ITEMS_PER_FETCH ids) q) w)"
proof (induction k arbitrary: w)
  case 0
  then show ?case
    by (subst fetch_items_batch.simps)
      (auto simp: requests_get_def fetch_result_def rate_limited_def retried_def
          split: http.splits option.splits)
next
  case (Suc k)
  let ?b = "take ITEMS_PER_FETCH ids"
  let ?w1 = "sleep 60 (w\<lparr>requests := Suc (requests w), log := log w @ [Fetch_request ?b q]\<rparr>)"
  from Suc.prems(2) have first: "rate_limited (fetch_api srv (requests w) ?b q)"
    by (metis add.right_neutral zero_less_Suc)
  have "\<forall>i<k. rate_limited (fetch_api srv (requests ?w1 + i) ?b q)"
    using Suc.prems(2) by (auto simp: sleep_def)
  moreover have "\<not> rate_limited (fetch_api srv (requests ?w1 + k) ?b q)"
    using Suc.prems(3) by (simp add: sleep_def)
  ultimately have IH: "fetch_items_batch srv ids q ?w1 =
     Some (fetch_result (fetch_api srv (requests ?w1 + k) ?b q), retried k (Fetch_request ?b q) ?w1)"
    using Suc.IH [OF Suc.prems(1)] by blast
  have unfold: "fetch_items_batch srv ids q w = fetch_items_batch srv ids q ?w1"
    using first Suc.prems(1)
    by (subst fetch_items_batch.simps)
      (auto simp: requests_get_def rate_limited_def split: http.splits)
  show ?case
    unfolding unfold IH by (simp add: sleep_def retried_def)
qed



section \<open>Aggregator: properties\<close>





lemma track_unique_seen:
  "fset (snd (track_unique xs acc seen)) =
     fset seen \<union> {i. i \<noteq> [] \<and> Some i \<in> item_id ` set xs}"
  by (induction xs arbitrary: acc seen) (auto split: option.splits)









section \<open>HTTP clients: what a returning call did\<close>

text \<open>
  The converse of the retry lemmas, by fixpoint induction: a call that returns has met
  finitely many 429s, and its result and final world are determined by their number.
\<close>

lemma retried_0: "retried 0 e w = w\<lparr>requests := Suc (requests w), log := log w @ [e]\<rparr>"
  by (simp add: retried_def)

lemma retried_Suc:
  "retried k e (sleep 60 (w\<lparr>requests := Suc (requests w), log := log w @ [e]\<rparr>)) =
   retried (Suc k) e w"
  by (simp add: retried_def sleep_def)

lemmas search_induct =
  search_items_with_filters.raw_induct [rotated, consumes 1, case_names step]

lemma search_returns:
  assumes "search_items_with_filters srv f w = Some y"
  shows "\<exists>k. (\<forall>i<k. rate_limited (search_api srv (requests w + i) f)) \<and>
       \<not> rate_limited (search_api srv (requests w + k) f) \<and>
       y = (search_result (search_api srv (requests w + k) f), retried k (Search_request f) w)"
  using assms
proof (induct rule: search_induct)
  case (step search srv f w y)
  let ?w0 = "w\<lparr>requests := Suc (requests w), log := log w @ [Search_request f]\<rparr>"
  let ?r = "search_api srv (requests w) f"
  note body = step(2)
  show ?case
  proof (cases "rate_limited ?r")
    case False
    have "y = (search_result ?r, ?w0)"
    proof (cases ?r)
      case Transport_exception
      with body show ?thesis by (simp add: requests_post_def search_result_def)
    next
      case (Response status b)
      with False have "status \<noteq> 429" by (simp add: rate_limited_def)
      with body Response show ?thesis
        by (cases "status = 200"; cases b) (simp_all add: requests_post_def search_result_def)
    qed
    then have "y = (search_result (search_api srv (requests w + 0) f),
                    retried 0 (Search_request f) w)"
      by (simp add: retried_0)
    with False show ?thesis
      by (intro exI [of _ 0]) simp
  next
    case True
    then obtain b where r: "?r = Response 429 b"
      by (cases ?r) (simp_all add: rate_limited_def)
    have "search srv f (sleep 60 ?w0) = Some y"
      using body r by (simp add: requests_post_def)
    from step(1) [OF this] obtain k where
      k: "\<forall>i<k. rate_limited (search_api srv (requests (sleep 60 ?w0) + i) f)"
         "\<not> rate_limited (search_api srv (requests (sleep 60 ?w0) + k) f)"
         "y = (search_result (search_api srv (requests (sleep 60 ?w0) + k) f),
               retried k (Search_request f) (sleep 60 ?w0))"
      by blast
    have req: "requests (sleep 60 ?w0) = Suc (requests w)"
      by (simp add: sleep_def)
    have "\<forall>i<Suc k. rate_limited (search_api srv (requests w + i) f)"
    proof (intro allI impI)
      fix i assume i: "i < Suc k"
      show "rate_limited (search_api srv (requests w + i) f)"
      proof (cases i)
        case 0 with True show ?thesis by simp
      next
        case (Suc j)
        with i have "j < k" by simp
        with k(1) have "rate_limited (search_api srv (requests (sleep 60 ?w0) + j) f)" by blast
        then show ?thesis unfolding req Suc by simp
      qed
    qed
    moreover from k(2) have "\<not> rate_limited (search_api srv (requests w + Suc k) f)"
      unfolding req by simp
    moreover from k(3) have
      "y = (search_result (search_api srv (requests w + Suc k) f),
            retried (Suc k) (Search_request f) w)"
      unfolding req retried_Suc by simp
    ultimately show ?thesis by blast
  qed
qed

lemmas fetch_induct =
  fetch_items_batch.raw_induct [rotated, consumes 1, case_names step]

lemma fetch_returns:
  assumes "fetch_items_batch srv ids q w = Some y" and "ids \<noteq> []"
  shows "\<exists>k. (\<forall>i<k. rate_limited (fetch_api srv (requests w + i) (take ITEMS_PER_FETCH ids) q)) \<and>
       \<not> rate_limited (fetch_api srv (requests w + k) (take ITEMS_PER_FETCH ids) q) \<and>
       y = (fetch_result (fetch_api srv (requests w + k) (take ITEMS_PER_FETCH ids) q), retried k (Fetch_request (take ITEMS_PER_FETCH ids) q) w)"
  using assms
proof (induct rule: fetch_induct)
  case (step fetch srv ids q w y)
  let ?w0 = "w\<lparr>requests := Suc (requests w), log := log w @ [Fetch_request (take ITEMS_PER_FETCH ids) q]\<rparr>"
  let ?r = "fetch_api srv (requests w) (take ITEMS_PER_FETCH ids) q"
  note body = step(2) and ne = step(3)
  show ?case
  proof (cases "rate_limited ?r")
    case False
    have "y = (fetch_result ?r, ?w0)"
    proof (cases ?r)
      case Transport_exception
      with body ne show ?thesis by (simp add: requests_get_def fetch_result_def)
    next
      case (Response status b)
      with False have "status \<noteq> 429" by (simp add: rate_limited_def)
      with body ne Response show ?thesis
        by (cases "status = 200") (simp_all add: requests_get_def fetch_result_def)
    qed
    then have "y = (fetch_result (fetch_api srv (requests w + 0) (take ITEMS_PER_FETCH ids) q),
                    retried 0 (Fetch_request (take ITEMS_PER_FETCH ids) q) w)"
      by (simp add: retried_0)
    with False show ?thesis
      by (intro exI [of _ 0]) simp
  next
    case True
    then obtain b where r: "?r = Response 429 b"
      by (cases ?r) (simp_all add: rate_limited_def)
    have "fetch srv ids q (sleep 60 ?w0) = Some y"
      using body ne r by (simp add: requests_get_def)
    from step(1) [OF this ne] obtain k where
      k: "\<forall>i<k. rate_limited (fetch_api srv (requests (sleep 60 ?w0) + i) (take ITEMS_PER_FETCH ids) q)"
         "\<not> rate_limited (fetch_api srv (requests (sleep 60 ?w0) + k) (take ITEMS_PER_FETCH ids) q)"
         "y = (fetch_result (fetch_api srv (requests (sleep 60 ?w0) + k) (take ITEMS_PER_FETCH ids) q),
               retried k (Fetch_request (take ITEMS_PER_FETCH ids) q) (sleep 60 ?w0))"
      by blast
    have req: "requests (sleep 60 ?w0) = Suc (requests w)"
      by (simp add: sleep_def)
    have "\<forall>i<Suc k. rate_limited (fetch_api srv (requests w + i) (take ITEMS_PER_FETCH ids) q)"
    proof (intro allI impI)
      fix i assume i: "i < Suc k"
      show "rate_limited (fetch_api srv (requests w + i) (take ITEMS_PER_FETCH ids) q)"
      proof (cases i)
        case 0 with True show ?thesis by simp
      next
        case (Suc j)
        with i have "j < k" by simp
        with k(1) have "rate_limited (fetch_api srv (requests (sleep 60 ?w0) + j) (take ITEMS_PER_FETCH ids) q)" by blast
        then show ?thesis unfolding req Suc by simp
      qed
    qed
    moreover from k(2) have "\<not> rate_limited (fetch_api srv (requests w + Suc k) (take ITEMS_PER_FETCH ids) q)"
      unfolding req by simp
    moreover from k(3) have
      "y = (fetch_result (fetch_api srv (requests w + Suc k) (take ITEMS_PER_FETCH ids) q),
            retried (Suc k) (Fetch_request (take ITEMS_PER_FETCH ids) q) w)"
      unfolding req retried_Suc by simp
    ultimately show ?thesis by blast
  qed
qed

lemma fetch_items_batch_Nil: "fetch_items_batch srv [] q w = Some (None, w)"
  by (subst fetch_items_batch.simps) simp

section \<open>Session loop: skipped and empty categories\<close>

lemma session_loop_all_completed:
  "(\<forall>(name, f) \<in> set cats. name |\<in>| C) \<Longrightarrow>
   session_loop srv n k cats C S coll w = Some (C, S, coll, w)"
  by (induction cats arbitrary: k) auto

text \<open>
  Claim C4.  A category whose name is in \<open>completed_categories\<close> is skipped: the loop goes on
  with the next category in the same world and with the same sets, so no request is sent, no
  file is written and the progress is not touched.  A session all of whose categories are in
  the loaded set of completed categories returns in the world it started in.
\<close>

theorem completed_category_skipped:
  "(category_name |\<in>| completed \<longrightarrow>
      session_loop srv n cat_num ((category_name, filters) # rest) completed seen collected w =
      session_loop srv n (Suc cat_num) rest completed seen collected w) \<and>
   (load_progress w = Inr (completed, seen) \<and>
    (\<forall>(name, f) \<in> set categories. name |\<in>| completed) \<longrightarrow>
      scrape_session srv session_number categories w = Some (Inr w))"
  by (simp add: scrape_session_def session_loop_all_completed)

theorem completed_category_skipped_witness:
  "session_loop server_429 1 1 [(''Rare_0-1c'', filters0)]
       {|''Rare_0-1c''|} {|''id1'', ''id2''|} [] world_progress =
     Some ({|''Rare_0-1c''|}, {|''id1'', ''id2''|}, [], world_progress) \<and>
   scrape_session server_429 1 [(''Rare_0-1c'', filters0)] world_progress =
     Some (Inr world_progress)"
proof -
  have l: "load_progress world_progress = Inr ({|''Rare_0-1c''|}, {|''id1'', ''id2''|})"
    by (simp add: load_progress_def world_progress_def world0_def PROGRESS_FILE_def empty_object_def)
  show ?thesis
    using l
      completed_category_skipped [of "''Rare_0-1c''" "{|''Rare_0-1c''|}" server_429 1 1 filters0
        "[]" "{|''id1'', ''id2''|}" "[]" world_progress
        "[(''Rare_0-1c'', filters0)]" 1]
    by simp
qed

lemma scrape_category_no_ids:
  "search_items_with_filters srv filters w = Some (([], query_id, total_count), w1) \<Longrightarrow>
   scrape_category srv category_name filters flag w = Some ([], w1)"
  by (simp add: scrape_category.simps)

lemma log_save_progress:
  "log (save_progress C S w) =
     log w @ [Write_file PROGRESS_FILE (Json (empty_object\<lparr>
          jo_completed_categories := Some (sorted_list_of_fset C),
          jo_seen_item_ids := Some (sorted_list_of_fset S),
          jo_last_updated := Some (now w)\<rparr>))]"
  by (simp add: save_progress_def write_file_def)

lemma files_save_progress:
  "files (save_progress C S w) =
     AList.update PROGRESS_FILE (Json (empty_object\<lparr>
          jo_completed_categories := Some (sorted_list_of_fset C),
          jo_seen_item_ids := Some (sorted_list_of_fset S),
          jo_last_updated := Some (now w)\<rparr>)) (files w)"
  by (simp add: save_progress_def write_file_def)

text \<open>
  Claim C7.  When the search of a category that is not yet completed returns no item ID,
  \<open>scrape_category\<close> returns the empty list in the world the search left; the session loop
  adds the category to \<open>completed_categories\<close>, saves the progress and goes on.  Up to the
  save, the log holds the search (with its retries on 429) and the write of the progress
  file: no fetch request and no output file.  The only file changed is the progress file, and
  loading it gives the enlarged set.
\<close>

theorem empty_search_completes_category:
  assumes "category_name |\<notin>| completed"
    and "search_items_with_filters srv filters w = Some (([], query_id, total_count), w1)"
  shows "\<exists>k progress.
    scrape_category srv category_name filters True w = Some ([], w1) \<and>
    session_loop srv n cat_num ((category_name, filters) # rest) completed seen collected w =
      session_loop srv n (Suc cat_num) rest (finsert category_name completed) seen collected
        (if cat_num < n
         then sleep DELAY_BETWEEN_SEARCHES (save_progress (finsert category_name completed) seen w1)
         else save_progress (finsert category_name completed) seen w1) \<and>
    log (save_progress (finsert category_name completed) seen w1) =
      log w @ concat (replicate k [Search_request filters, Sleep 60]) @
        [Search_request filters, Write_file PROGRESS_FILE progress] \<and>
    files (save_progress (finsert category_name completed) seen w1) =
      AList.update PROGRESS_FILE progress (files w) \<and>
    load_progress (save_progress (finsert category_name completed) seen w1) =
      Inr (finsert category_name completed, seen)"
proof -
  from search_returns [OF assms(2)] obtain k where
    w1: "w1 = retried k (Search_request filters) w" by auto
  have cat: "scrape_category srv category_name filters True w = Some ([], w1)"
    by (rule scrape_category_no_ids [OF assms(2)])
  let ?p = "Json (empty_object\<lparr>
          jo_completed_categories := Some (sorted_list_of_fset (finsert category_name completed)),
          jo_seen_item_ids := Some (sorted_list_of_fset seen),
          jo_last_updated := Some (now w1)\<rparr>)"
  have "session_loop srv n cat_num ((category_name, filters) # rest) completed seen collected w =
      session_loop srv n (Suc cat_num) rest (finsert category_name completed) seen collected
        (if cat_num < n
         then sleep DELAY_BETWEEN_SEARCHES (save_progress (finsert category_name completed) seen w1)
         else save_progress (finsert category_name completed) seen w1)"
    using assms(1) cat by (simp add: Let_def)
  moreover have "log (save_progress (finsert category_name completed) seen w1) =
      log w @ concat (replicate k [Search_request filters, Sleep 60]) @
        [Search_request filters, Write_file PROGRESS_FILE ?p]"
    by (simp add: log_save_progress w1 retried_def)
  moreover have "files (save_progress (finsert category_name completed) seen w1) =
      AList.update PROGRESS_FILE ?p (files w)"
    by (simp add: files_save_progress w1 retried_def)
  ultimately show ?thesis
    using cat load_progress_save_progress by blast
qed

lemma search_once:
  "\<not> rate_limited (search_api srv (requests w) f) \<Longrightarrow>
   search_items_with_filters srv f w =
     Some (search_result (search_api srv (requests w) f),
           w\<lparr>requests := Suc (requests w), log := log w @ [Search_request f]\<rparr>)"
  using search_retry [of 0 srv w f] by (simp add: retried_0)

lemma fetch_once:
  "ids \<noteq> [] \<Longrightarrow>
   \<not> rate_limited (fetch_api srv (requests w) (take ITEMS_PER_FETCH ids) q) \<Longrightarrow>
   fetch_items_batch srv ids q w =
     Some (fetch_result (fetch_api srv (requests w) (take ITEMS_PER_FETCH ids) q),
           w\<lparr>requests := Suc (requests w),
             log := log w @ [Fetch_request (take ITEMS_PER_FETCH ids) q]\<rparr>)"
  using fetch_retry [of ids 0 srv w q] by (simp add: retried_0)

lemma search_server_empty:
  "search_items_with_filters server_empty filters0 world0 =
     Some (([], ''q0'', 0), world0\<lparr>requests := 1, log := [Search_request filters0]\<rparr>)"
  by (simp add: search_once server_empty_def rate_limited_def search_result_def world0_def)

lemma sorted_list_of_fset_empty: "sorted_list_of_fset ({||} :: string fset) = []"
  by (simp add: sorted_list_of_fset.rep_eq)

lemma sorted_list_Rare: "sorted_list_of_fset {|''Rare_0-1c''|} = [''Rare_0-1c'']"
  by code_simp

theorem empty_search_completes_category_witness:
  "scrape_session server_empty 1 [(''Rare_0-1c'', filters0)] world0 =
     Some (Inr \<lparr>now = 0, requests = 1,
       files = [(''progress.json'', Json (empty_object\<lparr>
          jo_completed_categories := Some [''Rare_0-1c''],
          jo_seen_item_ids := Some [],
          jo_last_updated := Some 0\<rparr>))],
       log = [Search_request filters0, Write_file ''progress.json'' (Json (empty_object\<lparr>
          jo_completed_categories := Some [''Rare_0-1c''],
          jo_seen_item_ids := Some [],
          jo_last_updated := Some 0\<rparr>))]\<rparr>)"
proof -
  have ne: "''Rare_0-1c'' |\<notin>| {||}" by simp
  from empty_search_completes_category [OF ne search_server_empty,
      where n = 1 and cat_num = 1 and rest = "[]" and seen = "{||}" and collected = "[]"]
  obtain k progress where
    "session_loop server_empty 1 1 [(''Rare_0-1c'', filters0)] {||} {||} [] world0 =
      session_loop server_empty 1 (Suc 1) [] {|''Rare_0-1c''|} {||} []
        (if (1::nat) < 1
         then sleep DELAY_BETWEEN_SEARCHES (save_progress {|''Rare_0-1c''|} {||}
                (world0\<lparr>requests := 1, log := [Search_request filters0]\<rparr>))
         else save_progress {|''Rare_0-1c''|} {||}
                (world0\<lparr>requests := 1, log := [Search_request filters0]\<rparr>))"
    by blast
  then show ?thesis
    by (simp add: scrape_session_def load_progress_def world0_def PROGRESS_FILE_def
        save_progress_def write_file_def sorted_list_Rare sorted_list_of_fset_empty)
qed

section \<open>Fetch phase: properties\<close>

lemma batches_of_Nil [simp]: "batches_of [] = []"
  by (simp add: batches_of.simps)

lemma batches_of_nonempty:
  "ids \<noteq> [] \<Longrightarrow> batches_of ids = take ITEMS_PER_FETCH ids # batches_of (drop ITEMS_PER_FETCH ids)"
  by (subst batches_of.simps) simp

lemma batches_of_eq_Nil [simp]: "batches_of ids = [] \<longleftrightarrow> ids = []"
  by (cases "ids = []") (simp_all add: batches_of_nonempty)

lemma concat_batches_of: "concat (batches_of ids) = ids"
  by (induction ids rule: batches_of.induct) (subst batches_of.simps, simp)

lemma batches_of_sizes:
  "b \<in> set (batches_of ids) \<Longrightarrow> b \<noteq> [] \<and> length b \<le> ITEMS_PER_FETCH"
proof (induction ids rule: batches_of.induct)
  case (1 ids)
  show ?case
  proof (cases "ids = []")
    case True with "1.prems" show ?thesis by simp
  next
    case False
    with "1.prems" have "b = take ITEMS_PER_FETCH ids \<or> b \<in> set (batches_of (drop ITEMS_PER_FETCH ids))"
      by (simp add: batches_of_nonempty)
    then show ?thesis
    proof
      assume "b = take ITEMS_PER_FETCH ids"
      with False show ?thesis by (simp add: ITEMS_PER_FETCH_def)
    next
      assume "b \<in> set (batches_of (drop ITEMS_PER_FETCH ids))"
      with "1.IH" [OF False] show ?thesis by simp
    qed
  qed
qed

lemma batches_of_full:
  "b \<in> set (butlast (batches_of ids)) \<Longrightarrow> length b = ITEMS_PER_FETCH"
proof (induction ids rule: batches_of.induct)
  case (1 ids)
  show ?case
  proof (cases "ids = []")
    case True with "1.prems" show ?thesis by simp
  next
    case False
    show ?thesis
    proof (cases "drop ITEMS_PER_FETCH ids = []")
      case True
      with False "1.prems" show ?thesis by (simp add: batches_of_nonempty)
    next
      case rest: False
      with False "1.prems" have
        "b = take ITEMS_PER_FETCH ids \<or> b \<in> set (butlast (batches_of (drop ITEMS_PER_FETCH ids)))"
        by (simp add: batches_of_nonempty [of ids])
      then show ?thesis
      proof
        assume "b = take ITEMS_PER_FETCH ids"
        with rest show ?thesis by simp
      next
        assume "b \<in> set (butlast (batches_of (drop ITEMS_PER_FETCH ids)))"
        with "1.IH" [OF False] show ?thesis by simp
      qed
    qed
  qed
qed

lemma ceil_div_step: "0 < (n::nat) \<Longrightarrow> Suc ((9 + (n - 10)) div 10) = (9 + n) div 10"
proof (cases "n < 10")
  case True
  assume "0 < n"
  with True show ?thesis by simp
next
  case False
  then obtain m where n: "n = m + 10" by (metis add.commute le_Suc_ex not_less)
  show ?thesis unfolding n by simp
qed

lemma ceil_div_less: "(k::nat) < (n + 10 - 1) div 10 \<longleftrightarrow> k * 10 < n"
  by arith

lemma ceil_div_le: "(n::nat) \<le> ((n + 10 - 1) div 10) * 10"
  by arith

lemma length_batches_of:
  "length (batches_of ids) = (length ids + ITEMS_PER_FETCH - 1) div ITEMS_PER_FETCH"
proof (induction ids rule: batches_of.induct)
  case (1 ids)
  show ?case
  proof (cases "ids = []")
    case True then show ?thesis by (simp add: ITEMS_PER_FETCH_def)
  next
    case False
    then have "0 < length ids" by simp
    with "1.IH" [OF False] False show ?thesis
      by (simp add: batches_of_nonempty [of ids] ITEMS_PER_FETCH_def ceil_div_step)
  qed
qed

lemma fetch_loop_step:
  "fetch_loop srv ids q nb (k # rest) acc w =
     (case fetch_items_batch srv
             (take (min (k * ITEMS_PER_FETCH + ITEMS_PER_FETCH) (length ids) - k * ITEMS_PER_FETCH)
                (drop (k * ITEMS_PER_FETCH) ids)) q w of
        None \<Rightarrow> None
      | Some (d, w1) \<Rightarrow>
          fetch_loop srv ids q nb rest (acc @ batch_items d)
            (if k + 1 < nb then sleep DELAY_BETWEEN_FETCHES w1 else w1))"
  by (auto simp: Let_def batch_items_def split: option.splits)

lemma fetch_loop_from:
  assumes nb: "nb = (length ids + ITEMS_PER_FETCH - 1) div ITEMS_PER_FETCH"
  shows "k \<le> nb \<Longrightarrow>
    fetch_loop srv ids q nb [k..<nb] acc w =
    fetch_batches srv q (batches_of (drop (k * ITEMS_PER_FETCH) ids)) acc w"
proof (induction "nb - k" arbitrary: k acc w)
  case 0
  then have "k = nb" by simp
  then have "length ids \<le> k * ITEMS_PER_FETCH"
    unfolding nb ITEMS_PER_FETCH_def by (simp add: ceil_div_le)
  with \<open>k = nb\<close> show ?case by simp
next
  case (Suc d)
  then have lt: "k < nb" by simp
  then have pos: "k * ITEMS_PER_FETCH < length ids"
    unfolding nb ITEMS_PER_FETCH_def by (simp only: ceil_div_less)
  let ?rest = "drop (k * ITEMS_PER_FETCH) ids"
  have ne: "?rest \<noteq> []" using pos by simp
  have slice: "take (min (k * ITEMS_PER_FETCH + ITEMS_PER_FETCH) (length ids) - k * ITEMS_PER_FETCH) ?rest
      = take ITEMS_PER_FETCH ?rest"
    using pos by (simp add: min_def)
  have later: "drop ITEMS_PER_FETCH ?rest = drop (Suc k * ITEMS_PER_FETCH) ids"
    by (simp add: add.commute)
  have "k + 1 < nb \<longleftrightarrow> (k + 1) * 10 < length ids"
    unfolding nb ITEMS_PER_FETCH_def by (simp only: ceil_div_less)
  then have last: "k + 1 < nb \<longleftrightarrow> batches_of (drop (Suc k * ITEMS_PER_FETCH) ids) \<noteq> []"
    by (auto simp: ITEMS_PER_FETCH_def)
  have upt: "[k..<nb] = k # [Suc k..<nb]" using lt by (simp add: upt_conv_Cons)
  have IH: "\<And>acc w. fetch_loop srv ids q nb [Suc k..<nb] acc w =
      fetch_batches srv q (batches_of (drop (Suc k * ITEMS_PER_FETCH) ids)) acc w"
    using Suc.hyps(1) [of "Suc k"] Suc.hyps(2) lt by simp
  let ?B = "batches_of (drop (Suc k * ITEMS_PER_FETCH) ids)"
  have lhs: "fetch_loop srv ids q nb [k..<nb] acc w =
     (case fetch_items_batch srv (take ITEMS_PER_FETCH ?rest) q w of
        None \<Rightarrow> None
      | Some (d, w1) \<Rightarrow>
          fetch_loop srv ids q nb [Suc k..<nb] (acc @ batch_items d)
            (if k + 1 < nb then sleep DELAY_BETWEEN_FETCHES w1 else w1))"
    unfolding upt fetch_loop_step slice ..
  have rhs: "fetch_batches srv q (batches_of ?rest) acc w =
     (case fetch_items_batch srv (take ITEMS_PER_FETCH ?rest) q w of
        None \<Rightarrow> None
      | Some (d, w1) \<Rightarrow>
          fetch_batches srv q ?B (acc @ batch_items d)
            (if ?B = [] then w1 else sleep DELAY_BETWEEN_FETCHES w1))"
    unfolding batches_of_nonempty [OF ne] later fetch_batches.simps ..
  show ?case
  proof (cases "fetch_items_batch srv (take ITEMS_PER_FETCH ?rest) q w")
    case None
    then show ?thesis unfolding lhs rhs by simp
  next
    case (Some p)
    obtain d w1 where p: "p = (d, w1)" by (cases p)
    show ?thesis
    proof (cases "?B = []")
      case True
      with last have "\<not> k + 1 < nb" by blast
      with True Some p show ?thesis unfolding lhs rhs by (simp add: IH)
    next
      case False
      with last have "k + 1 < nb" by blast
      with False Some p show ?thesis unfolding lhs rhs by (simp add: IH)
    qed
  qed
qed

lemma fetch_batches_not_limited:
  assumes "\<forall>n b. \<not> rate_limited (fetch_api srv n b q)"
  shows "(\<forall>b \<in> set bs. b \<noteq> [] \<and> length b \<le> ITEMS_PER_FETCH) \<Longrightarrow>
    fetch_batches srv q bs acc w =
      Some (acc @ fetched_items srv q (requests w) bs,
            w\<lparr>now := now w + DELAY_BETWEEN_FETCHES * (length bs - 1),
              requests := requests w + length bs,
              log := log w @ fetch_events q bs\<rparr>)"
proof (induction bs arbitrary: acc w)
  case Nil
  show ?case by simp
next
  case (Cons b bs)
  from Cons.prems have b: "b \<noteq> []" "take ITEMS_PER_FETCH b = b" by simp_all
  have once: "fetch_items_batch srv b q w =
     Some (fetch_result (fetch_api srv (requests w) b q),
           w\<lparr>requests := Suc (requests w), log := log w @ [Fetch_request b q]\<rparr>)"
    using fetch_retry [of b 0 srv w q] assms b by (simp add: retried_0)
  show ?case
  proof (cases bs)
    case Nil
    then show ?thesis by (simp add: once)
  next
    case (Cons b' bs')
    from Cons.prems have rest: "\<forall>b \<in> set bs. b \<noteq> [] \<and> length b \<le> ITEMS_PER_FETCH" by simp
    let ?w1 = "sleep DELAY_BETWEEN_FETCHES
        (w\<lparr>requests := Suc (requests w), log := log w @ [Fetch_request b q]\<rparr>)"
    have ne: "bs \<noteq> []" using Cons by simp
    have "fetch_batches srv q (b # bs) acc w =
        fetch_batches srv q bs
          (acc @ batch_items (fetch_result (fetch_api srv (requests w) b q))) ?w1"
      using ne by (simp add: once)
    also have "\<dots> =
        Some ((acc @ batch_items (fetch_result (fetch_api srv (requests w) b q))) @
                fetched_items srv q (requests ?w1) bs,
              ?w1\<lparr>now := now ?w1 + DELAY_BETWEEN_FETCHES * (length bs - 1),
                requests := requests ?w1 + length bs,
                log := log ?w1 @ fetch_events q bs\<rparr>)"
      by (rule Cons.IH [OF rest])
    also have "\<dots> =
        Some (acc @ fetched_items srv q (requests w) (b # bs),
              w\<lparr>now := now w + DELAY_BETWEEN_FETCHES * (length (b # bs) - 1),
                requests := requests w + length (b # bs),
                log := log w @ fetch_events q (b # bs)\<rparr>)"
      using Cons by (simp add: sleep_def)
    finally show ?thesis .
  qed
qed

text \<open>
  Claim C8.  The fetch phase of \<open>scrape_category\<close>, the loop over
  \<open>range(num_batches)\<close> with its index arithmetic, is the phase of the specification over
  \<open>batches_of item_ids\<close>: one call of the fetch client per batch, in order, the results
  of the successful batches appended in batch order, the delay after every batch except the
  last.  The batches are consecutive pieces of the ID list, none empty, none longer than 10,
  all but the last of length 10.  When the server answers no fetch by 429 the phase returns,
  having sent exactly one request per batch.
\<close>

theorem fetch_phase_batches:
  "fetch_loop srv item_ids query_id
       ((length item_ids + ITEMS_PER_FETCH - 1) div ITEMS_PER_FETCH)
       [0..<(length item_ids + ITEMS_PER_FETCH - 1) div ITEMS_PER_FETCH] [] w =
     fetch_batches srv query_id (batches_of item_ids) [] w \<and>
   concat (batches_of item_ids) = item_ids \<and>
   (\<forall>b \<in> set (batches_of item_ids). b \<noteq> [] \<and> length b \<le> 10) \<and>
   (\<forall>b \<in> set (butlast (batches_of item_ids)). length b = 10) \<and>
   ((\<forall>n b. \<not> rate_limited (fetch_api srv n b query_id)) \<longrightarrow>
      fetch_loop srv item_ids query_id
        ((length item_ids + ITEMS_PER_FETCH - 1) div ITEMS_PER_FETCH)
        [0..<(length item_ids + ITEMS_PER_FETCH - 1) div ITEMS_PER_FETCH] [] w =
      Some (fetched_items srv query_id (requests w) (batches_of item_ids),
            w\<lparr>now := now w + DELAY_BETWEEN_FETCHES * (length (batches_of item_ids) - 1),
              requests := requests w + length (batches_of item_ids),
              log := log w @ fetch_events query_id (batches_of item_ids)\<rparr>))"
proof -
  let ?nb = "(length item_ids + ITEMS_PER_FETCH - 1) div ITEMS_PER_FETCH"
  have ref: "fetch_loop srv item_ids query_id ?nb [0..<?nb] [] w =
     fetch_batches srv query_id (batches_of item_ids) [] w"
    using fetch_loop_from [OF refl, of 0 item_ids srv query_id "[]" w] by simp
  have sizes: "\<forall>b \<in> set (batches_of item_ids). b \<noteq> [] \<and> length b \<le> ITEMS_PER_FETCH"
    using batches_of_sizes by blast
  have full: "\<forall>b \<in> set (butlast (batches_of item_ids)). length b = ITEMS_PER_FETCH"
    using batches_of_full by blast
  show ?thesis
    using ref sizes full fetch_batches_not_limited [OF _ sizes, of srv query_id "[]" w]
    by (simp add: concat_batches_of ITEMS_PER_FETCH_def)
qed

lemma batches_of_ids12:
  "batches_of ids12 =
     [[''i01'', ''i02'', ''i03'', ''i04'', ''i05'', ''i06'', ''i07'', ''i08'', ''i09'', ''i10''],
      [''i11'', ''i12'']]"
  by (simp add: batches_of.simps ids12_def ITEMS_PER_FETCH_def)

theorem fetch_phase_batches_witness:
  "fetch_loop server_items ids12 ''q1'' 2 [0..<2] [] world0 =
     Some (map (\<lambda>i. Item (Some i) ''data'') ids12,
           \<lparr>now = 5, requests = 2, files = [],
            log = [Fetch_request [''i01'', ''i02'', ''i03'', ''i04'', ''i05'', ''i06'', ''i07'',
                                  ''i08'', ''i09'', ''i10''] ''q1'',
                   Sleep 5,
                   Fetch_request [''i11'', ''i12''] ''q1'']\<rparr>)"
proof -
  have n: "\<forall>n b. \<not> rate_limited (fetch_api server_items n b ''q1'')"
    by (simp add: server_items_def rate_limited_def)
  have len: "(length ids12 + ITEMS_PER_FETCH - 1) div ITEMS_PER_FETCH = 2"
    by (simp add: ids12_def ITEMS_PER_FETCH_def)
  from fetch_phase_batches [of server_items ids12 "''q1''" world0] n
  have "fetch_loop server_items ids12 ''q1''
        ((length ids12 + ITEMS_PER_FETCH - 1) div ITEMS_PER_FETCH)
        [0..<(length ids12 + ITEMS_PER_FETCH - 1) div ITEMS_PER_FETCH] [] world0 =
      Some (fetched_items server_items ''q1'' (requests world0) (batches_of ids12),
            world0\<lparr>now := now world0 + DELAY_BETWEEN_FETCHES * (length (batches_of ids12) - 1),
              requests := requests world0 + length (batches_of ids12),
              log := log world0 @ fetch_events ''q1'' (batches_of ids12)\<rparr>)"
    by blast
  then show ?thesis
    unfolding len batches_of_ids12
    by (simp add: world0_def server_items_def fetch_result_def batch_items_def
        DELAY_BETWEEN_FETCHES_def ids12_def)
qed

section \<open>Category pipeline: effects\<close>

lemma written_append [simp]: "written (xs @ ys) = written xs @ written ys"
  by (induction xs rule: written.induct) simp_all

lemma searched_append [simp]: "searched (xs @ ys) = searched xs @ searched ys"
  by (induction xs rule: searched.induct) simp_all

lemma written_search_retries [simp]:
  "written (concat (replicate k [Search_request f, Sleep n])) = []"
  by (induction k) simp_all

lemma written_fetch_retries [simp]:
  "written (concat (replicate k [Fetch_request b q, Sleep n])) = []"
  by (induction k) simp_all

lemma searched_fetch_retries [simp]:
  "searched (concat (replicate k [Fetch_request b q, Sleep n])) = []"
  by (induction k) simp_all

lemma searched_search_retries [simp]:
  "searched (concat (replicate k [Search_request f, Sleep n])) = replicate k f"
  by (induction k) simp_all

lemma search_effects:
  assumes "search_items_with_filters srv f w = Some (r, w1)"
  shows "\<exists>es. log w1 = log w @ es \<and> written es = [] \<and> set (searched es) = {f} \<and>
              files w1 = files w"
proof -
  from search_returns [OF assms] obtain k where "w1 = retried k (Search_request f) w" by auto
  then show ?thesis by (auto simp: retried_def)
qed

lemma fetch_effects:
  assumes "fetch_items_batch srv b q w = Some (d, w1)"
  shows "\<exists>es. log w1 = log w @ es \<and> written es = [] \<and> searched es = [] \<and> files w1 = files w"
proof (cases "b = []")
  case True
  with assms show ?thesis by (simp add: fetch_items_batch_Nil)
next
  case False
  from fetch_returns [OF assms False] obtain k where
    "w1 = retried k (Fetch_request (take ITEMS_PER_FETCH b) q) w" by auto
  then show ?thesis by (simp add: retried_def)
qed

lemma fetch_batches_effects:
  "fetch_batches srv q bs acc w = Some (items, w') \<Longrightarrow>
   \<exists>es. log w' = log w @ es \<and> written es = [] \<and> searched es = [] \<and> files w' = files w"
proof (induction bs arbitrary: acc w)
  case Nil
  then show ?case by simp
next
  case (Cons b bs)
  from Cons.prems obtain d w1 where
    f: "fetch_items_batch srv b q w = Some (d, w1)" and
    r: "fetch_batches srv q bs (acc @ batch_items d)
          (if bs = [] then w1 else sleep DELAY_BETWEEN_FETCHES w1) = Some (items, w')"
    by (auto split: option.splits)
  from fetch_effects [OF f] obtain es1 where
    es1: "log w1 = log w @ es1" "written es1 = []" "searched es1 = []" "files w1 = files w"
    by blast
  from Cons.IH [OF r] obtain es2 where
    es2: "log w' = log (if bs = [] then w1 else sleep DELAY_BETWEEN_FETCHES w1) @ es2"
      "written es2 = []" "searched es2 = []"
      "files w' = files (if bs = [] then w1 else sleep DELAY_BETWEEN_FETCHES w1)"
    by blast
  show ?case
  proof (cases "bs = []")
    case True
    with es1 es2 show ?thesis by (intro exI [of _ "es1 @ es2"]) simp
  next
    case False
    with es1 es2 show ?thesis
      by (intro exI [of _ "es1 @ Sleep DELAY_BETWEEN_FETCHES # es2"]) (simp add: sleep_def)
  qed
qed

lemma fetch_loop_batches:
  "fetch_loop srv ids q ((length ids + ITEMS_PER_FETCH - 1) div ITEMS_PER_FETCH)
     [0..<(length ids + ITEMS_PER_FETCH - 1) div ITEMS_PER_FETCH] acc w =
   fetch_batches srv q (batches_of ids) acc w"
  using fetch_loop_from [OF refl, of 0 ids srv q acc w] by simp

lemma scrape_category_flat:
  assumes "search_items_with_filters srv f w = Some ((ids, q, t), w1)"
    and "\<not> (100 \<le> length ids \<and> 100 < t \<and> flag)"
  shows "scrape_category srv name f flag w =
     (if ids = [] then Some ([], w1)
      else case fetch_batches srv q (batches_of ids) [] w1 of
             None \<Rightarrow> None
           | Some (items, w2) \<Rightarrow>
               Some (items,
                 if items \<noteq> []
                 then write_file (safe_name name @ ''.json'')
                        (category_file name None items (now w2)) w2
                 else w2))"
proof -
  have "scrape_category srv name f flag w =
     (if ids = [] then Some ([], w1)
      else if 100 \<le> length ids \<and> 100 < t \<and> flag
      then scrape_with_subdivision srv name f t w1
      else case fetch_batches srv q (batches_of ids) [] w1 of
             None \<Rightarrow> None
           | Some (all_items, w2) \<Rightarrow>
               if all_items \<noteq> [] then
                 Some (all_items,
                   write_file (safe_name name @ ''.json'')
                     (Json (empty_object\<lparr>
                        jo_metadata := Some (Category_metadata name
                          (length all_items) None (now w2)),
                        jo_items := Some all_items\<rparr>)) w2)
               else Some (all_items, w2))"
    by (subst scrape_category.simps)
      (simp only: assms(1) option.case prod.case Let_def fetch_loop_batches)
  with assms(2) show ?thesis
    by (auto simp: category_file_def split: option.splits)
qed

lemma scrape_category_subdivides:
  assumes "search_items_with_filters srv f w = Some ((ids, q, t), w1)"
    and "100 \<le> length ids" "100 < t"
  shows "scrape_category srv name f True w = scrape_with_subdivision srv name f t w1"
  using assms by (subst scrape_category.simps) auto

section \<open>Categories within the window\<close>

lemma fetch_batches_length:
  assumes honest: "\<forall>n b. length (batch_items (fetch_result (fetch_api srv n b q))) \<le> length b"
  shows "fetch_batches srv q bs acc w = Some (items, w') \<Longrightarrow>
    (\<forall>b \<in> set bs. b \<noteq> [] \<and> length b \<le> ITEMS_PER_FETCH) \<Longrightarrow>
    length items \<le> length acc + length (concat bs)"
proof (induction bs arbitrary: acc w)
  case Nil
  then show ?case by simp
next
  case (Cons b bs)
  from Cons.prems(2) have b: "b \<noteq> []" "take ITEMS_PER_FETCH b = b" by simp_all
  from Cons.prems(1) obtain d w1 where
    f: "fetch_items_batch srv b q w = Some (d, w1)" and
    r: "fetch_batches srv q bs (acc @ batch_items d)
          (if bs = [] then w1 else sleep DELAY_BETWEEN_FETCHES w1) = Some (items, w')"
    by (auto split: option.splits)
  from fetch_returns [OF f b(1)] obtain k where
    "d = fetch_result (fetch_api srv (requests w + k) b q)" by (auto simp: b)
  with honest have "length (batch_items d) \<le> length b" by simp
  moreover from Cons.IH [OF r] Cons.prems(2)
  have "length items \<le> length (acc @ batch_items d) + length (concat bs)" by simp
  ultimately show ?case by simp
qed

lemma scrape_category_flat_effects:
  assumes s: "search_items_with_filters srv f w = Some ((ids, q, t), w1)"
    and nt: "\<not> (100 \<le> length ids \<and> 100 < t \<and> flag)"
    and c: "scrape_category srv name f flag w = Some (items, w')"
  shows "\<exists>es date. log w' = log w1 @ es \<and> searched es = [] \<and>
      written es = (if items = [] then []
                    else [(safe_name name @ ''.json'', category_file name None items date)]) \<and>
      map_of (files w') =
        (if items = [] then map_of (files w1)
         else (map_of (files w1))(safe_name name @ ''.json'' \<mapsto>
                category_file name None items date))"
proof (cases "ids = []")
  case True
  with c scrape_category_flat [OF s nt, of name] show ?thesis by auto
next
  case False
  with c scrape_category_flat [OF s nt, of name] obtain w2 where
    fb: "fetch_batches srv q (batches_of ids) [] w1 = Some (items, w2)" and
    w': "w' = (if items \<noteq> []
               then write_file (safe_name name @ ''.json'')
                      (category_file name None items (now w2)) w2
               else w2)"
    by (auto split: option.splits)
  from fetch_batches_effects [OF fb] obtain es where
    es: "log w2 = log w1 @ es" "written es = []" "searched es = []" "files w2 = files w1"
    by blast
  show ?thesis
  proof (cases "items = []")
    case True
    with w' es show ?thesis by (intro exI [of _ es]) simp
  next
    case False
    with w' es show ?thesis
      by (intro exI [of _ "es @ [Write_file (safe_name name @ ''.json'')
              (category_file name None items (now w2))]"] exI [of _ "now w2"])
        (simp add: write_file_def update_conv')
  qed
qed

lemma scrape_category_flat_length:
  assumes s: "search_items_with_filters srv f w = Some ((ids, q, t), w1)"
    and nt: "\<not> (100 \<le> length ids \<and> 100 < t \<and> flag)"
    and c: "scrape_category srv name f flag w = Some (items, w')"
    and honest: "\<forall>n b. length (batch_items (fetch_result (fetch_api srv n b q))) \<le> length b"
  shows "length items \<le> length ids"
proof (cases "ids = []")
  case True
  with c scrape_category_flat [OF s nt, of name] show ?thesis by auto
next
  case False
  with c scrape_category_flat [OF s nt, of name] obtain w2 where
    fb: "fetch_batches srv q (batches_of ids) [] w1 = Some (items, w2)"
    by (auto split: option.splits)
  from fetch_batches_length [OF honest fb] batches_of_sizes [of _ ids]
  show ?thesis by (auto simp: concat_batches_of)
qed

lemma scrape_category_flat_returns:
  assumes s: "search_items_with_filters srv f w = Some ((ids, q, t), w1)"
    and nt: "\<not> (100 \<le> length ids \<and> 100 < t \<and> flag)"
    and n: "\<forall>n b. \<not> rate_limited (fetch_api srv n b q)"
  shows "\<exists>items w'. scrape_category srv name f flag w = Some (items, w')"
proof -
  have "\<forall>b \<in> set (batches_of ids). b \<noteq> [] \<and> length b \<le> ITEMS_PER_FETCH"
    using batches_of_sizes by blast
  from fetch_batches_not_limited [OF n this, of "[]" w1]
  show ?thesis
    unfolding scrape_category_flat [OF s nt, of name] by simp
qed

text \<open>
  Claim C3, as the code has it.  Let the search of a category return \<open>item_ids\<close> and
  \<open>total_count\<close>.  With 100 or more IDs and a total above 100 the call (with
  \<open>subdivide_if_full\<close> set) is the call of \<open>scrape_with_subdivision\<close>.  Otherwise, in
  particular whenever \<open>total_count \<le> 100\<close>, a returning call sends no further search and
  writes at most one file: none when no item was fetched, else the file of the category with
  the fetched items.  The number of items is at most \<open>total_count\<close> when the server returns
  at most one record per requested ID and no more IDs than the total it reports.  When no
  fetch is answered by 429, the call returns.
\<close>

theorem category_within_window:
  assumes "search_items_with_filters srv filters w = Some ((item_ids, query_id, total_count), w1)"
  shows
   "(100 \<le> length item_ids \<and> 100 < total_count \<longrightarrow>
       scrape_category srv category_name filters True w =
         scrape_with_subdivision srv category_name filters total_count w1) \<and>
    (\<not> (100 \<le> length item_ids \<and> 100 < total_count \<and> subdivide_if_full) \<longrightarrow>
       (\<forall>items w'.
          scrape_category srv category_name filters subdivide_if_full w = Some (items, w') \<longrightarrow>
          (\<exists>es date. log w' = log w1 @ es \<and> searched es = [] \<and>
             written es =
               (if items = [] then []
                else [(safe_name category_name @ ''.json'',
                       category_file category_name None items date)])) \<and>
          ((\<forall>n b. length (batch_items (fetch_result (fetch_api srv n b query_id))) \<le> length b) \<and>
           int (length item_ids) \<le> total_count \<longrightarrow>
             int (length items) \<le> total_count)) \<and>
       ((\<forall>n b. \<not> rate_limited (fetch_api srv n b query_id)) \<longrightarrow>
          (\<exists>items w'.
             scrape_category srv category_name filters subdivide_if_full w = Some (items, w'))))"
proof (intro conjI impI allI)
  assume "100 \<le> length item_ids \<and> 100 < total_count"
  then show "scrape_category srv category_name filters True w =
         scrape_with_subdivision srv category_name filters total_count w1"
    using scrape_category_subdivides [OF assms] by blast
next
  fix items w'
  assume nt: "\<not> (100 \<le> length item_ids \<and> 100 < total_count \<and> subdivide_if_full)"
    and c: "scrape_category srv category_name filters subdivide_if_full w = Some (items, w')"
  from scrape_category_flat_effects [OF assms nt c]
  show "\<exists>es date. log w' = log w1 @ es \<and> searched es = [] \<and>
             written es =
               (if items = [] then []
                else [(safe_name category_name @ ''.json'',
                       category_file category_name None items date)])"
    by blast
next
  fix items w'
  assume nt: "\<not> (100 \<le> length item_ids \<and> 100 < total_count \<and> subdivide_if_full)"
    and c: "scrape_category srv category_name filters subdivide_if_full w = Some (items, w')"
    and h: "(\<forall>n b. length (batch_items (fetch_result (fetch_api srv n b query_id))) \<le> length b) \<and>
           int (length item_ids) \<le> total_count"
  from scrape_category_flat_length [OF assms nt c] h
  show "int (length items) \<le> total_count" by simp
next
  assume nt: "\<not> (100 \<le> length item_ids \<and> 100 < total_count \<and> subdivide_if_full)"
    and n: "\<forall>n b. \<not> rate_limited (fetch_api srv n b query_id)"
  from scrape_category_flat_returns [OF assms nt n]
  show "\<exists>items w'.
             scrape_category srv category_name filters subdivide_if_full w = Some (items, w')"
    by blast
qed

lemma safe_name_Rare: "safe_name ''Rare_0-1c'' = ''Rare_0-1c''"
  by (simp add: safe_name_def replace_def)

lemma search_server_items:
  "search_items_with_filters server_items filters0 world0 =
     Some ((ids12, ''q1'', 12), world0\<lparr>requests := 1, log := [Search_request filters0]\<rparr>)"
  by (simp add: search_once server_items_def rate_limited_def search_result_def world0_def)

lemma scrape_category_server_items:
  "scrape_category server_items ''Rare_0-1c'' filters0 True world0 =
     Some (map (\<lambda>i. Item (Some i) ''data'') ids12,
       \<lparr>now = 5, requests = 3,
        files = [(''Rare_0-1c.json'',
                 category_file ''Rare_0-1c'' None (map (\<lambda>i. Item (Some i) ''data'') ids12) 5)],
        log = [Search_request filters0,
               Fetch_request [''i01'', ''i02'', ''i03'', ''i04'', ''i05'', ''i06'', ''i07'',
                              ''i08'', ''i09'', ''i10''] ''q1'',
               Sleep 5,
               Fetch_request [''i11'', ''i12''] ''q1'',
               Write_file ''Rare_0-1c.json''
                 (category_file ''Rare_0-1c'' None (map (\<lambda>i. Item (Some i) ''data'') ids12) 5)]\<rparr>)"
proof -
  have nt: "\<not> (100 \<le> length ids12 \<and> 100 < (12::int) \<and> True)" by simp
  have ne: "ids12 \<noteq> []" by (simp add: ids12_def)
  have n: "\<forall>n b. \<not> rate_limited (fetch_api server_items n b ''q1'')"
    by (simp add: server_items_def rate_limited_def)
  have sz: "\<forall>b \<in> set (batches_of ids12). b \<noteq> [] \<and> length b \<le> ITEMS_PER_FETCH"
    using batches_of_sizes by blast
  have fb: "fetch_batches server_items ''q1'' (batches_of ids12) []
        (world0\<lparr>requests := 1, log := [Search_request filters0]\<rparr>) =
      Some (map (\<lambda>i. Item (Some i) ''data'') ids12,
        \<lparr>now = 5, requests = 3, files = [],
         log = [Search_request filters0,
               Fetch_request [''i01'', ''i02'', ''i03'', ''i04'', ''i05'', ''i06'', ''i07'',
                              ''i08'', ''i09'', ''i10''] ''q1'',
               Sleep 5,
               Fetch_request [''i11'', ''i12''] ''q1'']\<rparr>)"
    by (subst fetch_batches_not_limited [OF n sz])
      (simp add: batches_of.simps ITEMS_PER_FETCH_def world0_def server_items_def
        fetch_result_def batch_items_def DELAY_BETWEEN_FETCHES_def ids12_def)
  show ?thesis
    unfolding scrape_category_flat [OF search_server_items nt] fb
    using ne by (simp add: safe_name_Rare write_file_def)
qed

theorem category_within_window_witness:
  "search_items_with_filters server_items filters0 world0 =
     Some ((ids12, ''q1'', 12), world0\<lparr>requests := 1, log := [Search_request filters0]\<rparr>) \<and>
   scrape_category server_items ''Rare_0-1c'' filters0 True world0 =
     Some (map (\<lambda>i. Item (Some i) ''data'') ids12,
       \<lparr>now = 5, requests = 3,
        files = [(''Rare_0-1c.json'',
                 category_file ''Rare_0-1c'' None (map (\<lambda>i. Item (Some i) ''data'') ids12) 5)],
        log = [Search_request filters0,
               Fetch_request [''i01'', ''i02'', ''i03'', ''i04'', ''i05'', ''i06'', ''i07'',
                              ''i08'', ''i09'', ''i10''] ''q1'',
               Sleep 5,
               Fetch_request [''i11'', ''i12''] ''q1'',
               Write_file ''Rare_0-1c.json''
                 (category_file ''Rare_0-1c'' None (map (\<lambda>i. Item (Some i) ''data'') ids12) 5)]\<rparr>) \<and>
   int (length (map (\<lambda>i. Item (Some i) ''data'') ids12)) \<le> 12 \<and>
   (\<exists>items w'. scrape_category server_items ''Rare_0-1c'' filters0 True world0 = Some (items, w'))"
proof -
  have nt: "\<not> (100 \<le> length ids12 \<and> 100 < (12::int) \<and> True)" by simp
  have n: "\<forall>n b. \<not> rate_limited (fetch_api server_items n b ''q1'')"
    by (simp add: server_items_def rate_limited_def)
  have h: "(\<forall>n b. length (batch_items (fetch_result (fetch_api server_items n b ''q1''))) \<le> length b) \<and>
           int (length ids12) \<le> 12"
    by (simp add: server_items_def fetch_result_def batch_items_def ids12_def)
  note t = category_within_window [OF search_server_items, of "''Rare_0-1c''" True]
  from t nt h scrape_category_server_items
  have "int (length (map (\<lambda>i. Item (Some i) ''data'') ids12)) \<le> 12" by blast
  moreover from t nt n
  have "\<exists>items w'. scrape_category server_items ''Rare_0-1c'' filters0 True world0 = Some (items, w')"
    by blast
  ultimately show ?thesis
    using search_server_items scrape_category_server_items by blast
qed

lemma search_server_fetch_fails:
  "search_items_with_filters server_fetch_fails filters0 world0 =
     Some (([''a'', ''b''], ''q'', 2), world0\<lparr>requests := 1, log := [Search_request filters0]\<rparr>)"
  by (simp add: search_once server_fetch_fails_def rate_limited_def search_result_def world0_def)

lemma search_server_overfull:
  "search_items_with_filters server_overfull filters0 world0 =
     Some (([''a'', ''b''], ''q'', 1), world0\<lparr>requests := 1, log := [Search_request filters0]\<rparr>)"
  by (simp add: search_once server_overfull_def rate_limited_def search_result_def world0_def)

lemma batches_of_ab: "batches_of [''a'', ''b''] = [[''a'', ''b'']]"
  by (simp add: batches_of.simps ITEMS_PER_FETCH_def)

text \<open>
  The claim as stated fails in two ways: a category whose fetches all fail has a total of 2
  and no output file, and a server that reports a total of 1 with two IDs gets a file of two
  items.
\<close>

theorem category_within_window_counterexample:
  "search_items_with_filters server_fetch_fails filters0 world0 =
     Some (([''a'', ''b''], ''q'', 2), world0\<lparr>requests := 1, log := [Search_request filters0]\<rparr>) \<and>
   scrape_category server_fetch_fails ''Rare_0-1c'' filters0 True world0 =
     Some ([], \<lparr>now = 0, requests = 2, files = [],
                log = [Search_request filters0, Fetch_request [''a'', ''b''] ''q'']\<rparr>) \<and>
   search_items_with_filters server_overfull filters0 world0 =
     Some (([''a'', ''b''], ''q'', 1), world0\<lparr>requests := 1, log := [Search_request filters0]\<rparr>) \<and>
   scrape_category server_overfull ''Rare_0-1c'' filters0 True world0 =
     Some ([Item (Some ''a'') ''data'', Item (Some ''b'') ''data''],
       \<lparr>now = 0, requests = 2,
        files = [(''Rare_0-1c.json'', category_file ''Rare_0-1c'' None
                   [Item (Some ''a'') ''data'', Item (Some ''b'') ''data''] 0)],
        log = [Search_request filters0, Fetch_request [''a'', ''b''] ''q'',
               Write_file ''Rare_0-1c.json'' (category_file ''Rare_0-1c'' None
                   [Item (Some ''a'') ''data'', Item (Some ''b'') ''data''] 0)]\<rparr>)"
proof -
  have nt2: "\<not> (100 \<le> length [''a'', ''b''] \<and> 100 < (2::int) \<and> True)" by simp
  have nt1: "\<not> (100 \<le> length [''a'', ''b''] \<and> 100 < (1::int) \<and> True)" by simp
  have a: "scrape_category server_fetch_fails ''Rare_0-1c'' filters0 True world0 =
     Some ([], \<lparr>now = 0, requests = 2, files = [],
                log = [Search_request filters0, Fetch_request [''a'', ''b''] ''q'']\<rparr>)"
    unfolding scrape_category_flat [OF search_server_fetch_fails nt2] batches_of_ab
    by (simp add: fetch_once server_fetch_fails_def rate_limited_def fetch_result_def
        batch_items_def world0_def ITEMS_PER_FETCH_def)
  have b: "scrape_category server_overfull ''Rare_0-1c'' filters0 True world0 =
     Some ([Item (Some ''a'') ''data'', Item (Some ''b'') ''data''],
       \<lparr>now = 0, requests = 2,
        files = [(''Rare_0-1c.json'', category_file ''Rare_0-1c'' None
                   [Item (Some ''a'') ''data'', Item (Some ''b'') ''data''] 0)],
        log = [Search_request filters0, Fetch_request [''a'', ''b''] ''q'',
               Write_file ''Rare_0-1c.json'' (category_file ''Rare_0-1c'' None
                   [Item (Some ''a'') ''data'', Item (Some ''b'') ''data''] 0)]\<rparr>)"
    unfolding scrape_category_flat [OF search_server_overfull nt1] batches_of_ab
    by (simp add: fetch_once server_overfull_def rate_limited_def fetch_result_def
        batch_items_def world0_def ITEMS_PER_FETCH_def safe_name_Rare write_file_def)
  from a b search_server_fetch_fails search_server_overfull show ?thesis by blast
qed

section \<open>Subdivision: what a returning call did\<close>

lemma sub_file_simp:
  "sub_file name (r, items, date) =
     (if items = [] then []
      else [(safe_name (sub_category name r) @ ''.json'',
             category_file (sub_category name r) None items date)])"
  by (simp add: sub_file_def)

lemma subdivision_loop_sub_results:
  "subdivision_loop srv name f rs acc w =
     (case sub_results srv name f rs w of
        None \<Rightarrow> None
      | Some (subs, w') \<Rightarrow> Some (acc @ concat subs, w'))"
proof (induction rs arbitrary: acc w)
  case Nil
  show ?case by simp
next
  case (Cons r rs)
  obtain lo hi where r: "r = (lo, hi)" by (cases r)
  show ?case
    unfolding r
    by (simp add: Cons.IH sub_category_def Let_def split: option.splits)
qed

lemma sub_results_length:
  "sub_results srv name f rs w = Some (subs, w') \<Longrightarrow> length subs = length rs"
  by (induction rs arbitrary: w subs) (auto split: option.splits)

lemma scrape_category_False_effects:
  assumes "scrape_category srv name f False w = Some (items, w')"
  shows "\<exists>es date. log w' = log w @ es \<and> set (searched es) = {f} \<and>
      written es = (if items = [] then []
                    else [(safe_name name @ ''.json'', category_file name None items date)])"
proof -
  from assms obtain ids q t w1 where
    s: "search_items_with_filters srv f w = Some ((ids, q, t), w1)"
    by (subst (asm) scrape_category.simps) (auto split: option.splits)
  have nt: "\<not> (100 \<le> length ids \<and> 100 < t \<and> False)" by simp
  from search_effects [OF s] obtain es1 where
    es1: "log w1 = log w @ es1" "written es1 = []" "set (searched es1) = {f}" by blast
  from scrape_category_flat_effects [OF s nt assms] obtain es2 date where
    es2: "log w' = log w1 @ es2" "searched es2 = []"
      "written es2 = (if items = [] then []
                    else [(safe_name name @ ''.json'', category_file name None items date)])"
    by blast
  from es1 es2 show ?thesis
    by (intro exI [of _ "es1 @ es2"] exI [of _ date]) simp
qed

lemma sub_results_effects:
  "sub_results srv name f rs w = Some (subs, w') \<Longrightarrow>
   \<exists>es dates. length dates = length rs \<and> log w' = log w @ es \<and>
     set (searched es) = (\<lambda>r. f\<lparr>ilvl := Some r\<rparr>) ` set rs \<and>
     written es = concat (map (sub_file name) (zip rs (zip subs dates)))"
proof (induction rs arbitrary: w subs)
  case Nil
  then show ?case by simp
next
  case (Cons r rs)
  from Cons.prems obtain items w1 subs' where
    c: "scrape_category srv (sub_category name r) (f\<lparr>ilvl := Some r\<rparr>) False w = Some (items, w1)"
    and r: "sub_results srv name f rs (sleep 2 w1) = Some (subs', w')"
    and subs: "subs = items # subs'"
    by (auto split: option.splits)
  from scrape_category_False_effects [OF c] obtain es1 date where
    es1: "log w1 = log w @ es1" "set (searched es1) = {f\<lparr>ilvl := Some r\<rparr>}"
      "written es1 = (if items = [] then []
          else [(safe_name (sub_category name r) @ ''.json'',
                 category_file (sub_category name r) None items date)])"
    by blast
  from Cons.IH [OF r] obtain es2 dates where
    es2: "length dates = length rs" "log w' = log (sleep 2 w1) @ es2"
      "set (searched es2) = (\<lambda>r. f\<lparr>ilvl := Some r\<rparr>) ` set rs"
      "written es2 = concat (map (sub_file name) (zip rs (zip subs' dates)))"
    by blast
  show ?case
    using es1 es2 subs
    by (intro exI [of _ "es1 @ Sleep 2 # es2"] exI [of _ "date # dates"])
      (simp add: sleep_def sub_file_simp)
qed

lemma scrape_with_subdivision_effects:
  assumes "scrape_with_subdivision srv name f t w = Some (items, w')"
  shows "\<exists>subs w2 es dates date.
     sub_results srv name f level_ranges w = Some (subs, w2) \<and>
     length subs = length level_ranges \<and> length dates = length level_ranges \<and>
     items = concat subs \<and>
     log w' = log w @ es \<and>
     set (searched es) = (\<lambda>r. f\<lparr>ilvl := Some r\<rparr>) ` set level_ranges \<and>
     written es =
       concat (map (sub_file name) (zip level_ranges (zip subs dates))) @
       (if items = [] then []
        else [(safe_name name @ ''_COMBINED.json'', category_file name (Some True) items date)])"
proof -
  from assms obtain subs w2 where
    sr: "sub_results srv name f level_ranges w = Some (subs, w2)" and
    items: "items = concat subs" and
    w': "w' = (if items \<noteq> []
               then write_file (safe_name name @ ''_COMBINED.json'')
                      (category_file name (Some True) items (now w2)) w2
               else w2)"
    by (subst (asm) scrape_with_subdivision.simps)
      (auto simp: subdivision_loop_sub_results category_file_def split: option.splits if_splits)
  from sub_results_effects [OF sr] obtain es dates where
    es: "length dates = length level_ranges" "log w2 = log w @ es"
      "set (searched es) = (\<lambda>r. f\<lparr>ilvl := Some r\<rparr>) ` set level_ranges"
      "written es = concat (map (sub_file name) (zip level_ranges (zip subs dates)))"
    by blast
  show ?thesis
  proof (cases "items = []")
    case True
    with sr items w' es sub_results_length [OF sr] show ?thesis
      by (intro exI [of _ subs] exI [of _ w2] exI [of _ es] exI [of _ dates]) simp
  next
    case False
    with sr items w' es sub_results_length [OF sr] show ?thesis
      by (intro exI [of _ subs] exI [of _ w2]
          exI [of _ "es @ [Write_file (safe_name name @ ''_COMBINED.json'')
                      (category_file name (Some True) items (now w2))]"]
          exI [of _ dates] exI [of _ "now w2"])
        (simp add: write_file_def)
  qed
qed

section \<open>Subdivided categories\<close>



lemma sc_nonempty:
  "\<not> rate_limited (search_api srv (requests w) f) \<Longrightarrow>
   search_result (search_api srv (requests w) f) = ([], q, t) \<Longrightarrow>
   scrape_category srv name f flag w =
     Some ([], w\<lparr>requests := Suc (requests w), log := log w @ [Search_request f]\<rparr>)"
  by (simp add: scrape_category.simps search_once)









section \<open>Progress invariant\<close>

lemma items_of_category_file [simp]: "items_of (category_file name sd items date) = items"
  by (simp add: items_of_def category_file_def)

lemma sub_files_items:
  "(n, c) \<in> set (concat (map (sub_file name) (zip rs (zip subs dates)))) \<Longrightarrow>
   \<exists>sub \<in> set subs. items_of c = sub"
proof -
  assume "(n, c) \<in> set (concat (map (sub_file name) (zip rs (zip subs dates))))"
  then obtain r sub d where
    z: "(r, sub, d) \<in> set (zip rs (zip subs dates))" and m: "(n, c) \<in> set (sub_file name (r, sub, d))"
    by auto
  from z have "sub \<in> set subs" by (meson set_zip_leftD set_zip_rightD)
  moreover from m have "items_of c = sub"
    by (auto simp: sub_file_simp split: if_splits)
  ultimately show ?thesis by blast
qed

lemma scrape_category_written_items:
  assumes c: "scrape_category srv name f flag w = Some (items, w')"
  shows "\<exists>es. log w' = log w @ es \<and>
     (\<forall>(n, c) \<in> set (written es). set (items_of c) \<subseteq> set items)"
proof -
  from c obtain ids q t w1 where
    s: "search_items_with_filters srv f w = Some ((ids, q, t), w1)"
    by (subst (asm) scrape_category.simps) (auto split: option.splits)
  from search_effects [OF s] obtain es1 where
    es1: "log w1 = log w @ es1" "written es1 = []" by blast
  have "\<exists>es2. log w' = log w1 @ es2 \<and>
     (\<forall>(n, c) \<in> set (written es2). set (items_of c) \<subseteq> set items)"
  proof (cases "100 \<le> length ids \<and> 100 < t \<and> flag")
    case False
    from scrape_category_flat_effects [OF s False c] obtain es2 date where
      "log w' = log w1 @ es2"
      "written es2 = (if items = [] then []
                    else [(safe_name name @ ''.json'', category_file name None items date)])"
      by blast
    then show ?thesis by (intro exI [of _ es2]) auto
  next
    case True
    then have "scrape_with_subdivision srv name f t w1 = Some (items, w')"
      using scrape_category_subdivides [OF s, of name] c by simp
    from scrape_with_subdivision_effects [OF this] obtain subs es2 dates date where
      e: "items = concat subs" "log w' = log w1 @ es2"
        "written es2 =
           concat (map (sub_file name) (zip level_ranges (zip subs dates))) @
           (if items = [] then []
            else [(safe_name name @ ''_COMBINED.json'', category_file name (Some True) items date)])"
      by blast
    have "\<forall>(n, c) \<in> set (written es2). set (items_of c) \<subseteq> set items"
    proof (clarify)
      fix n c x
      assume nc: "(n, c) \<in> set (written es2)" and x: "x \<in> set (items_of c)"
      from nc e(3) have
        "(n, c) \<in> set (concat (map (sub_file name) (zip level_ranges (zip subs dates)))) \<or>
         (items \<noteq> [] \<and> c = category_file name (Some True) items date)"
        by (auto split: if_splits)
      then show "x \<in> set items"
      proof
        assume "(n, c) \<in> set (concat (map (sub_file name) (zip level_ranges (zip subs dates))))"
        from sub_files_items [OF this] x e(1) show ?thesis by auto
      next
        assume "items \<noteq> [] \<and> c = category_file name (Some True) items date"
        with x show ?thesis by simp
      qed
    qed
    with e(2) show ?thesis by blast
  qed
  then obtain es2 where
    es2: "log w' = log w1 @ es2"
      "\<forall>(n, c) \<in> set (written es2). set (items_of c) \<subseteq> set items"
    by blast
  from es1 es2 show ?thesis
    by (intro exI [of _ "es1 @ es2"]) simp
qed

lemma load_progress_sleep [simp]: "load_progress (sleep n w) = load_progress w"
  by (simp add: load_progress_def sleep_def)

lemma track_unique_grows: "seen |\<subseteq>| snd (track_unique xs acc seen)"
  using track_unique_seen [of xs acc seen] by (auto simp: less_eq_fset.rep_eq)

lemma session_loop_persisted:
  "load_progress w = Inr (Cp, Sp) \<Longrightarrow> Cp |\<subseteq>| C \<Longrightarrow> Sp |\<subseteq>| S \<Longrightarrow>
   session_loop srv n k cats C S coll w = Some (C', S', coll', w') \<Longrightarrow>
   \<exists>Cp' Sp'. load_progress w' = Inr (Cp', Sp') \<and> Cp |\<subseteq>| Cp' \<and> Sp |\<subseteq>| Sp'"
proof (induction cats arbitrary: k C S coll w Cp Sp)
  case Nil
  then show ?case by auto
next
  case (Cons p cats)
  obtain name f where p: "p = (name, f)" by (cases p)
  show ?case
  proof (cases "name |\<in>| C")
    case True
    with Cons.prems(4) p have
      "session_loop srv n (Suc k) cats C S coll w = Some (C', S', coll', w')" by simp
    from Cons.IH [OF Cons.prems(1-3) this] show ?thesis .
  next
    case False
    with Cons.prems(4) p obtain items w1 where
      c: "scrape_category srv name f True w = Some (items, w1)"
      by (auto split: option.splits)
    obtain coll1 S1 where t: "track_unique items coll S = (coll1, S1)" by fastforce
    let ?C1 = "finsert name C"
    let ?w2 = "save_progress ?C1 S1 w1"
    let ?w3 = "if k < n then sleep DELAY_BETWEEN_SEARCHES ?w2 else ?w2"
    from Cons.prems(4) p False c t have
      r: "session_loop srv n (Suc k) cats ?C1 S1 coll1 ?w3 = Some (C', S', coll', w')"
      by (simp add: Let_def)
    have l: "load_progress ?w3 = Inr (?C1, S1)"
      by (simp add: load_progress_save_progress)
    from Cons.IH [OF l _ _ r] obtain Cp' Sp' where
      "load_progress w' = Inr (Cp', Sp')" "?C1 |\<subseteq>| Cp'" "S1 |\<subseteq>| Sp'" by blast
    moreover have "S |\<subseteq>| S1" using track_unique_grows [of S items coll] t by simp
    ultimately show ?thesis using Cons.prems(2,3) by blast
  qed
qed

text \<open>
  Claim C9.  When the session loop processes a category, every item ID of every file that
  \<open>scrape_category\<close> wrote for it is in \<open>seen_item_ids\<close> at the time the progress is saved,
  the saved progress loads back as the enlarged sets, and neither set loses an element.  Over
  a whole session that returns, the sets of the progress file at the end include those
  loaded at the start: \<open>completed_categories\<close> only grows.
\<close>

theorem progress_invariant:
  "(category_name |\<notin>| completed \<and>
    scrape_category srv category_name filters True w = Some (items, w1) \<and>
    track_unique items collected seen = (collected1, seen1) \<longrightarrow>
      session_loop srv n cat_num ((category_name, filters) # rest) completed seen collected w =
        session_loop srv n (Suc cat_num) rest (finsert category_name completed) seen1 collected1
          (if cat_num < n
           then sleep DELAY_BETWEEN_SEARCHES
                  (save_progress (finsert category_name completed) seen1 w1)
           else save_progress (finsert category_name completed) seen1 w1) \<and>
      (\<exists>es. log w1 = log w @ es \<and>
         (\<forall>(name, c) \<in> set (written es). \<forall>x \<in> set (items_of c). \<forall>i.
            item_id x = Some i \<and> i \<noteq> [] \<longrightarrow> i |\<in>| seen1)) \<and>
      load_progress (save_progress (finsert category_name completed) seen1 w1) =
        Inr (finsert category_name completed, seen1) \<and>
      completed |\<subseteq>| finsert category_name completed \<and> seen |\<subseteq>| seen1) \<and>
   (load_progress w0 = Inr (C, S) \<and>
    scrape_session srv session_number categories w0 = Some (Inr w') \<longrightarrow>
      (\<exists>C' S'. load_progress w' = Inr (C', S') \<and> C |\<subseteq>| C' \<and> S |\<subseteq>| S'))"
proof (intro conjI impI)
  assume a: "category_name |\<notin>| completed \<and>
    scrape_category srv category_name filters True w = Some (items, w1) \<and>
    track_unique items collected seen = (collected1, seen1)"
  then show "session_loop srv n cat_num ((category_name, filters) # rest) completed seen collected w =
        session_loop srv n (Suc cat_num) rest (finsert category_name completed) seen1 collected1
          (if cat_num < n
           then sleep DELAY_BETWEEN_SEARCHES
                  (save_progress (finsert category_name completed) seen1 w1)
           else save_progress (finsert category_name completed) seen1 w1)"
    by (simp add: Let_def)
  from a have seen1: "fset seen1 = fset seen \<union> {i. i \<noteq> [] \<and> Some i \<in> item_id ` set items}"
    using track_unique_seen [of items collected seen] by simp
  from a scrape_category_written_items obtain es where
    es: "log w1 = log w @ es"
      "\<forall>(n, c) \<in> set (written es). set (items_of c) \<subseteq> set items"
    by blast
  have "\<forall>(name, c) \<in> set (written es). \<forall>x \<in> set (items_of c). \<forall>i.
            item_id x = Some i \<and> i \<noteq> [] \<longrightarrow> i |\<in>| seen1"
  proof (clarify)
    fix name c x i
    assume "(name, c) \<in> set (written es)" "x \<in> set (items_of c)" "item_id x = Some i" "i \<noteq> []"
    with es(2) have "x \<in> set items" by auto
    with \<open>item_id x = Some i\<close> \<open>i \<noteq> []\<close> have "i \<in> fset seen1"
      unfolding seen1 by force
    then show "i |\<in>| seen1" by simp
  qed
  with es(1) show "\<exists>es. log w1 = log w @ es \<and>
         (\<forall>(name, c) \<in> set (written es). \<forall>x \<in> set (items_of c). \<forall>i.
            item_id x = Some i \<and> i \<noteq> [] \<longrightarrow> i |\<in>| seen1)"
    by blast
  show "load_progress (save_progress (finsert category_name completed) seen1 w1) =
        Inr (finsert category_name completed, seen1)"
    by (rule load_progress_save_progress)
  show "completed |\<subseteq>| finsert category_name completed" by auto
  from a show "seen |\<subseteq>| seen1"
    using track_unique_grows [of seen items collected] by simp
next
  assume b: "load_progress w0 = Inr (C, S) \<and>
    scrape_session srv session_number categories w0 = Some (Inr w')"
  then obtain C1 S1 coll1 where
    "session_loop srv (length categories) 1 categories C S [] w0 = Some (C1, S1, coll1, w')"
    by (auto simp: scrape_session_def split: option.splits)
  from session_loop_persisted [OF _ _ _ this, of C S] b
  show "\<exists>C' S'. load_progress w' = Inr (C', S') \<and> C |\<subseteq>| C' \<and> S |\<subseteq>| S'"
    by auto
qed

lemma scrape_category_world_items12:
  "scrape_category server_items ''Rare_0-1c'' filters0 True world0 = Some (items12, world_items12)"
  using scrape_category_server_items by (simp add: items12_def world_items12_def)

lemma track_unique_items12: "track_unique items12 [] {||} = (items12, seen12)"
  by (auto simp: items12_def seen12_def ids12_def)

lemma scrape_session_items12:
  "scrape_session server_items 1 [(''Rare_0-1c'', filters0)] world0 =
     Some (Inr (save_progress {|''Rare_0-1c''|} seen12 world_items12))"
  by (simp add: scrape_session_def load_progress_def world0_def
      scrape_category_world_items12 [unfolded world0_def] track_unique_items12 Let_def)

theorem progress_invariant_witness:
  "session_loop server_items 1 1 [(''Rare_0-1c'', filters0)] {||} {||} [] world0 =
     Some ({|''Rare_0-1c''|}, seen12, items12, save_progress {|''Rare_0-1c''|} seen12 world_items12) \<and>
   load_progress (save_progress {|''Rare_0-1c''|} seen12 world_items12) =
     Inr ({|''Rare_0-1c''|}, seen12) \<and>
   (\<exists>es. log world_items12 = log world0 @ es \<and>
      (\<forall>(name, c) \<in> set (written es). \<forall>x \<in> set (items_of c). \<forall>i.
         item_id x = Some i \<and> i \<noteq> [] \<longrightarrow> i |\<in>| seen12)) \<and>
   (\<exists>C' S'. load_progress (save_progress {|''Rare_0-1c''|} seen12 world_items12) = Inr (C', S') \<and>
      {||} |\<subseteq>| C' \<and> {||} |\<subseteq>| S')"
proof -
  have h1: "''Rare_0-1c'' |\<notin>| {||} \<and>
    scrape_category server_items ''Rare_0-1c'' filters0 True world0 = Some (items12, world_items12) \<and>
    track_unique items12 [] {||} = (items12, seen12)"
    using scrape_category_world_items12 track_unique_items12 by simp
  have h2: "load_progress world0 = Inr ({||}, {||}) \<and>
    scrape_session server_items 1 [(''Rare_0-1c'', filters0)] world0 =
      Some (Inr (save_progress {|''Rare_0-1c''|} seen12 world_items12))"
    using scrape_session_items12 by (simp add: load_progress_def world0_def)
  note t = progress_invariant [where category_name = "''Rare_0-1c''" and completed = "{||}"
      and srv = server_items and filters = filters0 and w = world0 and items = items12
      and ?w1.0 = world_items12 and collected = "[]" and seen = "{||}"
      and ?collected1.0 = items12 and ?seen1.0 = seen12 and n = 1 and cat_num = 1 and rest = "[]"
      and ?w0.0 = world0 and C = "{||}" and S = "{||}" and session_number = 1
      and categories = "[(''Rare_0-1c'', filters0)]"
      and w' = "save_progress {|''Rare_0-1c''|} seen12 world_items12"]
  from t h1 have
    "session_loop server_items 1 1 [(''Rare_0-1c'', filters0)] {||} {||} [] world0 =
        session_loop server_items 1 (Suc 1) [] (finsert ''Rare_0-1c'' {||}) seen12 items12
          (if (1::nat) < 1
           then sleep DELAY_BETWEEN_SEARCHES (save_progress (finsert ''Rare_0-1c'' {||}) seen12 world_items12)
           else save_progress (finsert ''Rare_0-1c'' {||}) seen12 world_items12)"
    and "\<exists>es. log world_items12 = log world0 @ es \<and>
         (\<forall>(name, c) \<in> set (written es). \<forall>x \<in> set (items_of c). \<forall>i.
            item_id x = Some i \<and> i \<noteq> [] \<longrightarrow> i |\<in>| seen12)"
    and "load_progress (save_progress (finsert ''Rare_0-1c'' {||}) seen12 world_items12) =
        Inr (finsert ''Rare_0-1c'' {||}, seen12)"
    by blast+
  moreover from t h2 have
    "\<exists>C' S'. load_progress (save_progress {|''Rare_0-1c''|} seen12 world_items12) = Inr (C', S') \<and>
      {||} |\<subseteq>| C' \<and> {||} |\<subseteq>| S'"
    by blast
  ultimately show ?thesis by simp
qed

end
